theory Spec2Isabelle
  imports Main
begin

section \<open>Python exceptions as values\<close>

text \<open>
  Every way the Python code can stop early is a value of \<open>error\<close>:
  \<open>ValueError\<close> (raised by \<open>check_reg\<close>, \<open>check_ureg\<close> and \<open>int(str)\<close>),
  \<open>IndexError\<close> (a list read out of range, \<open>pop\<close> of an empty list),
  \<open>ZeroDivisionError\<close> (\<open>%\<close> by zero) and \<open>SystemExit\<close> (\<open>exit(1)\<close>).
\<close>

datatype error = ValueError | IndexError | ZeroDivisionError | SystemExit

definition bindE :: "error + 'a \<Rightarrow> ('a \<Rightarrow> error + 'b) \<Rightarrow> error + 'b" where
  "bindE r f = (case r of Inl e \<Rightarrow> Inl e | Inr x \<Rightarrow> f x)"

text \<open>Left-to-right concatenation of fallible pieces, as an f-string evaluates them.\<close>

fun catE :: "(error + string) list \<Rightarrow> error + string" where
  "catE [] = Inr []"
| "catE (p # ps) = bindE p (\<lambda>s. bindE (catE ps) (\<lambda>r. Inr (s @ r)))"

section \<open>registers.py\<close>

definition IRegisters :: "string list" where
  "IRegisters = [''BJR'', ''FJR'', ''IC'', ''TR1'', ''TR2'', ''TR3'', ''TR4'', ''TR5'']"

definition URegisters :: "string list" where
  "URegisters = [''CRR'', ''PC'', ''R1'', ''R2'', ''R3'', ''R4'', ''R5'']"

definition Registers :: "string list" where
  "Registers = IRegisters @ URegisters"

definition check_reg :: "string \<Rightarrow> error + unit" where
  "check_reg reg = (if reg \<notin> set Registers then Inl ValueError else Inr ())"

definition check_ureg :: "string \<Rightarrow> error + unit" where
  "check_ureg reg = (if reg \<notin> set URegisters then Inl ValueError else Inr ())"

text \<open>\<open>list.index\<close>: the position of the first occurrence (only called on members).\<close>

fun list_index :: "'a list \<Rightarrow> 'a \<Rightarrow> nat" where
  "list_index [] x = 0"
| "list_index (y # ys) x = (if y = x then 0 else Suc (list_index ys x))"

definition address_of :: "string \<Rightarrow> error + nat" where
  "address_of reg = bindE (check_reg reg) (\<lambda>_. Inr (list_index Registers reg))"

section \<open>assembler.py: data model\<close>

datatype OperandType = REFERENCE | ADDRESS | CONSTANT

record Operand =
  val :: string
  otype :: OperandType

record Instruction =
  iname :: string
  operands :: "Operand list"

record Label =
  lname :: string
  ip :: int

section \<open>Python's \<open>int(str)\<close>\<close>

text \<open>
  \<open>int(s)\<close> in base 10, a character being the code point of its number (below 256):
  surrounding blanks are stripped, one sign is allowed, then decimal digits with single
  underscores between digits. Anything else, a \<open>0x\<close> prefix included, raises \<open>ValueError\<close>.
  The blanks that \<open>int\<close> skips are tab, line feed, vertical tab, form feed, carriage
  return and space, and the two blanks above 127, next line (133) and no-break space
  (160); the separators 28 to 31 are blanks for \<open>str.strip\<close> but not for \<open>int\<close>. The
  interpreter's optional cap on the number of digits is a run-time setting and is not
  imposed here.
\<close>

definition is_space :: "char \<Rightarrow> bool" where
  "is_space c = (of_char c \<in> {9::nat, 10, 11, 12, 13, 32, 133, 160})"

definition is_digit :: "char \<Rightarrow> bool" where
  "is_digit c = (48 \<le> (of_char c :: nat) \<and> (of_char c :: nat) \<le> 57)"

definition digit_val :: "char \<Rightarrow> int" where
  "digit_val c = int (of_char c) - 48"

definition strip :: "string \<Rightarrow> string" where
  "strip s = rev (dropWhile is_space (rev (dropWhile is_space s)))"

fun parse_digits :: "string \<Rightarrow> int \<Rightarrow> int option" where
  "parse_digits [] acc = Some acc"
| "parse_digits (c # cs) acc =
     (if is_digit c then parse_digits cs (10 * acc + digit_val c)
      else if c = CHR ''_'' then
        (case cs of
           [] \<Rightarrow> None
         | d # ds \<Rightarrow> if is_digit d then parse_digits ds (10 * acc + digit_val d) else None)
      else None)"

definition parse_unsigned :: "string \<Rightarrow> int option" where
  "parse_unsigned s =
     (case s of
        [] \<Rightarrow> None
      | d # ds \<Rightarrow> if is_digit d then parse_digits ds (digit_val d) else None)"

definition py_int :: "string \<Rightarrow> error + int" where
  "py_int s =
     (let t = strip s;
          r = (case t of
                 [] \<Rightarrow> None
               | c # cs \<Rightarrow>
                   if c = CHR ''-'' then map_option uminus (parse_unsigned cs)
                   else if c = CHR ''+'' then parse_unsigned cs
                   else parse_unsigned t)
      in case r of None \<Rightarrow> Inl ValueError | Some v \<Rightarrow> Inr v)"

section \<open>assembler.py: BFGen\<close>

definition ptr :: "string \<Rightarrow> string \<Rightarrow> error + string" where
  "ptr src dst =
     bindE (address_of src) (\<lambda>s.
     bindE (address_of dst) (\<lambda>d.
       Inr (if d > s then replicate (d - s) CHR ''>'' else replicate (s - d) CHR ''<'')))"

text \<open>\<open>"+" * val\<close>: a negative count gives the empty string.\<close>

definition inc :: "int \<Rightarrow> string" where
  "inc v = replicate (nat v) CHR ''+''"

definition clr :: "string" where
  "clr = ''[-]''"

definition set_val :: "int \<Rightarrow> string" where
  "set_val v = ''[-]'' @ replicate (nat v) CHR ''+''"

definition mv :: "string \<Rightarrow> string \<Rightarrow> error + string" where
  "mv src dst = catE [Inr ''[-'', ptr src dst, Inr ''+'', ptr dst src, Inr '']'']"

definition cp :: "string \<Rightarrow> string \<Rightarrow> string \<Rightarrow> error + string" where
  "cp src dst tmp =
     catE [Inr ''[-'', ptr src dst, Inr ''+'', ptr dst tmp, Inr ''+'', ptr tmp src, Inr '']'',
           ptr src tmp, mv tmp src, ptr tmp src]"

definition set_pc :: "int \<Rightarrow> error + string" where
  "set_pc pc = catE [ptr ''FJR'' ''PC'', Inr clr, Inr (inc pc), ptr ''PC'' ''FJR'', Inr ''\<newline>'']"

definition fjump_wrap :: "string \<Rightarrow> string" where
  "fjump_wrap inst =
     ''>+<'' @ ''[>-]'' @ ''>[>]<\<newline>'' @
     (''[-\<newline>    '' @ inst @ ''\<newline>]\<newline>'') @
     ''+<[>-]>[>]<<->[-<+>]<\<newline>''"

definition bjump_post :: "string" where
  "bjump_post = ''<]>\<newline>''"

definition wrap :: "string \<Rightarrow> int \<Rightarrow> error + string" where
  "wrap inst pc = catE [set_pc pc, Inr (fjump_wrap inst), Inr bjump_post]"

definition bjump_pre :: "int \<Rightarrow> string" where
  "bjump_pre ni = inc ni @ ''\<newline>'' @ concat (replicate (nat ni) ''[-'') @ ''\<newline>>\<newline>''"

definition gt_setup :: "string \<Rightarrow> string \<Rightarrow> error + string" where
  "gt_setup rega regb =
     bindE (cp rega ''TR5'' ''TR4'') (\<lambda>cpa5.
     bindE (cp regb ''TR3'' ''TR4'') (\<lambda>cpb3.
     bindE (cp ''TR5'' ''TR1'' ''TR2'') (\<lambda>cpa1.
       catE [Inr cpa5, ptr rega regb, Inr cpb3, ptr regb ''TR5'', Inr cpa1])))"

definition clear_cond :: "string \<Rightarrow> error + string" where
  "clear_cond curr_ptr = catE [ptr curr_ptr ''CRR'', Inr ''[-]'', ptr ''CRR'' curr_ptr]"

definition gt_code :: "string" where
  "gt_code = ''[-<<[<<->]>[>]<->>]<<[+]<<''"

definition inot :: "string \<Rightarrow> string \<Rightarrow> error + string" where
  "inot a dst =
     bindE (ptr a dst) (\<lambda>ad.
     bindE (ptr dst a) (\<lambda>da.
       Inr (ad @ ''+'' @ da @ ''[[-]'' @ ad @ ''-'' @ da @ '']'')))"

definition cond :: "string \<Rightarrow> error + string" where
  "cond inst =
     catE [ptr ''IC'' ''CRR'', cp ''CRR'' ''IC'' ''TR1'', ptr ''CRR'' ''IC'',
           Inr (''[-'' @ inst @ '']'')]"

section \<open>assembler.py: BFI, the instruction compilers\<close>

type_synonym labels = "string \<rightharpoonup> Label"

definition add :: "Instruction \<Rightarrow> labels \<Rightarrow> int \<Rightarrow> error + string" where
  "add i labels pc =
     (if length (operands i) \<noteq> 2 then Inl SystemExit
      else
        let regadd = val (operands i ! 0) in
        bindE (check_ureg regadd) (\<lambda>_.
          case otype (operands i ! 1) of
            REFERENCE \<Rightarrow>
              (let regsrc = val (operands i ! 1) in
               bindE (check_ureg regsrc) (\<lambda>_.
               bindE (ptr ''TR1'' regsrc) (\<lambda>t2s.
               bindE (ptr regsrc regadd) (\<lambda>s2d.
               bindE (ptr regadd ''TR1'') (\<lambda>d2t.
                 catE [ptr ''IC'' regsrc, mv regsrc ''TR1'', ptr regsrc ''TR1'',
                       Inr (''[-'' @ t2s @ ''+'' @ s2d @ ''+'' @ d2t @ '']''),
                       ptr ''TR1'' ''IC''])))))
          | CONSTANT \<Rightarrow>
              (let v = val (operands i ! 1) in
               catE [ptr ''IC'' regadd,
                     bindE (py_int v) (\<lambda>n. Inr (replicate (nat n) CHR ''+'')),
                     ptr regadd ''IC''])
          | ADDRESS \<Rightarrow> Inl SystemExit))"

definition mov :: "Instruction \<Rightarrow> labels \<Rightarrow> int \<Rightarrow> error + string" where
  "mov i labels pc =
     (if length (operands i) \<noteq> 2 then Inl SystemExit
      else
        let dstv = val (operands i ! 0) in
        bindE (check_ureg dstv) (\<lambda>_.
          let srct = otype (operands i ! 1);
              srcv = val (operands i ! 1)
          in if srct \<noteq> CONSTANT then Inl SystemExit
             else catE [ptr ''IC'' dstv, Inr clr,
                        bindE (py_int srcv) (\<lambda>n. Inr (replicate (nat n) CHR ''+'')),
                        ptr dstv ''IC'']))"

definition out :: "Instruction \<Rightarrow> labels \<Rightarrow> int \<Rightarrow> error + string" where
  "out i labels pc =
     (if length (operands i) \<noteq> 1 then Inl SystemExit
      else
        let dstv = val (operands i ! 0) in
        bindE (check_ureg dstv) (\<lambda>_.
          catE [ptr ''IC'' dstv, Inr ''.'', ptr dstv ''IC'']))"

definition branch_reg :: "string \<Rightarrow> error + string" where
  "branch_reg dstv =
     bindE (catE [ptr ''IC'' ''PC'', gt_setup ''PC'' dstv, Inr (gt_code @ ''\<newline>''),
                  cp ''TR1'' ''TR3'' ''TR4'', ptr ''TR1'' ''TR3'', inot ''TR3'' ''TR2'',
                  ptr ''TR3'' ''TR1'', Inr ''\<newline>'']) (\<lambda>cmd1.
     bindE (catE [ptr ''TR1'' ''PC'', cp ''PC'' ''TR3'' ''TR5'', ptr ''PC'' dstv,
                  cp dstv ''TR4'' ''TR5'', ptr dstv ''TR4'', Inr ''[-<->]<'']) (\<lambda>sub1.
     bindE (catE [Inr ''['', Inr sub1, Inr ''\<newline>+'', mv ''TR3'' ''BJR'', ptr ''TR3'' ''TR1'',
                  Inr ''-]\<newline>'']) (\<lambda>cmd2.
     bindE (catE [ptr ''TR2'' ''PC'', cp ''PC'' ''TR4'' ''TR5'', ptr ''PC'' dstv,
                  cp dstv ''TR3'' ''TR5'', ptr dstv ''TR4'', Inr ''[-<->]<'']) (\<lambda>sub2.
     bindE (catE [Inr ''>['', Inr sub2, mv ''TR3'' ''FJR'', ptr ''TR3'' ''TR2'', Inr ''-]'',
                  ptr ''TR2'' ''IC'']) (\<lambda>cmd3.
       Inr (cmd1 @ cmd2 @ cmd3))))))"

definition branch :: "Instruction \<Rightarrow> labels \<Rightarrow> int \<Rightarrow> error + string" where
  "branch i labels pc =
     (if length (operands i) \<noteq> 1 then Inl SystemExit
      else
        let dstv = val (operands i ! 0) in
        if dstv \<in> set URegisters then branch_reg dstv
        else
          (case labels dstv of
             None \<Rightarrow> Inl SystemExit
           | Some lbl \<Rightarrow>
               if ip lbl > pc then
                 catE [ptr ''IC'' ''FJR'', Inr (inc (ip lbl - pc)), ptr ''FJR'' ''IC'']
               else
                 (let v = pc - ip lbl + 1 in
                  catE [ptr ''IC'' ''BJR'', Inr (inc v), ptr ''BJR'' ''IC''])))"

text \<open>\<open>i.operands[k]\<close> raises \<open>IndexError\<close> when the list is too short.\<close>

definition operand_at :: "Instruction \<Rightarrow> nat \<Rightarrow> error + Operand" where
  "operand_at i k = (if k < length (operands i) then Inr (operands i ! k) else Inl IndexError)"

definition gt :: "Instruction \<Rightarrow> labels \<Rightarrow> int \<Rightarrow> error + string" where
  "gt i labels pc =
     bindE (operand_at i 0) (\<lambda>oa.
     bindE (operand_at i 1) (\<lambda>ob.
       let a = val oa; b = val ob in
       catE [clear_cond ''IC'', ptr ''IC'' a, Inr ''\<newline>'', gt_setup a b, Inr ''\<newline>'',
             Inr gt_code, Inr ''\<newline>'', mv ''TR1'' ''CRR'', Inr ''\<newline>'', ptr ''TR1'' ''IC'']))"

definition IPtr :: "string \<rightharpoonup> (Instruction \<Rightarrow> labels \<Rightarrow> int \<Rightarrow> error + string)" where
  "IPtr = [''ADD'' \<mapsto> add, ''MOV'' \<mapsto> mov, ''OUT'' \<mapsto> out, ''GT'' \<mapsto> gt, ''B'' \<mapsto> branch]"

section \<open>assembler.py: assemble\<close>

fun assemble_loop :: "int \<Rightarrow> Instruction list \<Rightarrow> labels \<Rightarrow> string \<Rightarrow> error + string" where
  "assemble_loop pc [] labels bf = Inr bf"
| "assemble_loop pc (i # is) labels bf =
     (if iname i \<noteq> [] \<and> last (iname i) = CHR ''C'' \<and> butlast (iname i) \<in> dom IPtr then
        bindE (the (IPtr (butlast (iname i))) i labels pc) (\<lambda>istr.
        bindE (cond istr) (\<lambda>c.
        bindE (wrap c pc) (\<lambda>w. assemble_loop (pc + 1) is labels (bf @ w))))
      else if iname i \<in> dom IPtr then
        bindE (the (IPtr (iname i)) i labels pc) (\<lambda>istr.
        bindE (wrap istr pc) (\<lambda>w. assemble_loop (pc + 1) is labels (bf @ w)))
      else Inl SystemExit)"

definition assemble :: "Instruction list \<Rightarrow> labels \<Rightarrow> error + string" where
  "assemble instructions labels =
     bindE (assemble_loop 0 instructions labels [])
       (\<lambda>bf. Inr (bjump_pre (int (length instructions)) @ bf))"

section \<open>bfas.py: the parser\<close>

datatype TokenType =
  TK_NEWLINE | TK_LABEL | TK_COMMA | TK_WORD | TK_CONSTANT | TK_ADDRESS | TK_COMMENT

record Token =
  tvalue :: string
  ttype :: TokenType
  line :: nat
  cols :: "nat \<times> nat"

datatype ParserState = STATEMENT | OPERAND_1 | OPERAND_CONT | OPERAND_2

text \<open>The local variables of \<open>parser\<close> that its loop reads and writes.\<close>

record parser_vars =
  p_state :: ParserState
  p_instructions :: "Instruction list"
  p_labels :: labels
  p_ic :: int
  p_curr_inst :: Instruction

text \<open>
  \<open>t.value is labels\<close> compares the identity of a \<open>str\<close> object with that of the
  \<open>dict\<close>: it is false for every token and every table.
\<close>

definition value_is_labels :: "string \<Rightarrow> labels \<Rightarrow> bool" where
  "value_is_labels v ls = False"

definition complete_instruction :: "parser_vars \<Rightarrow> parser_vars" where
  "complete_instruction v =
     v\<lparr>p_ic := p_ic v + 1, p_instructions := p_instructions v @ [p_curr_inst v]\<rparr>"

definition parser_step :: "Token \<Rightarrow> parser_vars \<Rightarrow> error + parser_vars" where
  "parser_step t v =
     (if ttype t = TK_COMMENT then Inr v
      else case p_state v of
        STATEMENT \<Rightarrow>
          (case ttype t of
             TK_LABEL \<Rightarrow>
               if value_is_labels (tvalue t) (p_labels v) then Inl SystemExit
               else Inr (v\<lparr>p_labels := (p_labels v)(tvalue t \<mapsto> \<lparr>lname = tvalue t, ip = p_ic v\<rparr>)\<rparr>)
           | TK_WORD \<Rightarrow>
               Inr (v\<lparr>p_curr_inst := (p_curr_inst v)\<lparr>iname := tvalue t\<rparr>, p_state := OPERAND_1\<rparr>)
           | TK_NEWLINE \<Rightarrow> Inr v
           | _ \<Rightarrow> Inl SystemExit)
      | OPERAND_1 \<Rightarrow>
          (case ttype t of
             TK_WORD \<Rightarrow>
               Inr (v\<lparr>p_curr_inst :=
                        (p_curr_inst v)\<lparr>operands := [\<lparr>val = tvalue t, otype = REFERENCE\<rparr>]\<rparr>,
                      p_state := OPERAND_CONT\<rparr>)
           | TK_NEWLINE \<Rightarrow> Inr ((complete_instruction v)\<lparr>p_state := STATEMENT\<rparr>)
           | _ \<Rightarrow> Inl SystemExit)
      | OPERAND_CONT \<Rightarrow>
          (case ttype t of
             TK_COMMA \<Rightarrow> Inr (v\<lparr>p_state := OPERAND_2\<rparr>)
           | TK_NEWLINE \<Rightarrow> Inr ((complete_instruction v)\<lparr>p_state := STATEMENT\<rparr>)
           | _ \<Rightarrow> Inl SystemExit)
      | OPERAND_2 \<Rightarrow>
          (let push = (\<lambda>k. v\<lparr>p_curr_inst :=
                               (p_curr_inst v)\<lparr>operands :=
                                  operands (p_curr_inst v) @ [\<lparr>val = tvalue t, otype = k\<rparr>]\<rparr>,
                             p_state := OPERAND_CONT\<rparr>)
           in case ttype t of
                TK_WORD \<Rightarrow> Inr (push REFERENCE)
              | TK_ADDRESS \<Rightarrow> Inr (push ADDRESS)
              | TK_CONSTANT \<Rightarrow> Inr (push CONSTANT)
              | _ \<Rightarrow> Inl SystemExit))"

fun parser_loop :: "Token list \<Rightarrow> parser_vars \<Rightarrow> error + parser_vars" where
  "parser_loop [] v = Inr v"
| "parser_loop (t # ts) v = bindE (parser_step t v) (parser_loop ts)"

definition parser :: "Token list \<Rightarrow> error + (Instruction list \<times> labels)" where
  "parser tokens =
     bindE (parser_loop tokens
              \<lparr>p_state = STATEMENT, p_instructions = [], p_labels = Map.empty, p_ic = 0,
               p_curr_inst = \<lparr>iname = [], operands = []\<rparr>\<rparr>)
       (\<lambda>v. Inr (p_instructions v, p_labels v))"

section \<open>bfc.py: the tape machine\<close>

datatype ISet = NOP | ADD | MV | JMP | JZ | OUT | DBG

record MInstruction =
  iset :: ISet
  data :: int
  bfp :: nat

datatype Result = OK | END | SEGFAULT | BUSFAULT

text \<open>
  \<open>compile\<close> reads the text one character at a time. \<open>program\<close> starts as \<open>[NOP]\<close> and only
  grows, so \<open>program[-1]\<close> is always its last element.
\<close>

definition bump_last :: "MInstruction list \<Rightarrow> int \<Rightarrow> MInstruction list" where
  "bump_last program d = butlast program @ [(last program)\<lparr>data := data (last program) + d\<rparr>]"

definition compile_char ::
  "nat \<Rightarrow> char \<Rightarrow> MInstruction list \<times> nat list \<Rightarrow> error + (MInstruction list \<times> nat list)" where
  "compile_char i b st =
     (let program = fst st; loop_stack = snd st in
      if b = CHR ''+'' then
        (if iset (last program) = ADD then Inr (bump_last program 1, loop_stack)
         else Inr (program @ [\<lparr>iset = ADD, data = 1, bfp = i\<rparr>], loop_stack))
      else if b = CHR ''-'' then
        (if iset (last program) = ADD then Inr (bump_last program (- 1), loop_stack)
         else Inr (program @ [\<lparr>iset = ADD, data = - 1, bfp = i\<rparr>], loop_stack))
      else if b = CHR ''>'' then
        (if iset (last program) = MV then Inr (bump_last program 1, loop_stack)
         else Inr (program @ [\<lparr>iset = MV, data = 1, bfp = i\<rparr>], loop_stack))
      else if b = CHR ''<'' then
        (if iset (last program) = MV then Inr (bump_last program (- 1), loop_stack)
         else Inr (program @ [\<lparr>iset = MV, data = - 1, bfp = i\<rparr>], loop_stack))
      else if b = CHR ''.'' then
        Inr (program @ [\<lparr>iset = OUT, data = 0, bfp = i\<rparr>], loop_stack)
      else if b = CHR ''!'' then
        Inr (program @ [\<lparr>iset = DBG, data = 0, bfp = i\<rparr>], loop_stack)
      else if b = CHR ''['' then
        Inr (program @ [\<lparr>iset = JZ, data = 0, bfp = i\<rparr>], loop_stack @ [length program])
      else if b = CHR '']'' then
        (if loop_stack = [] then Inl IndexError
         else
           let addr = last loop_stack;
               program' = program @ [\<lparr>iset = JMP, data = int addr, bfp = i\<rparr>]
           in Inr (program'[addr := (program' ! addr)\<lparr>data := int (length program')\<rparr>],
                   butlast loop_stack))
      else Inr st)"

fun compile_loop ::
  "nat \<Rightarrow> string \<Rightarrow> MInstruction list \<times> nat list \<Rightarrow> error + (MInstruction list \<times> nat list)" where
  "compile_loop i [] st = Inr st"
| "compile_loop i (b # bf) st = bindE (compile_char i b st) (compile_loop (Suc i) bf)"

definition compile :: "string \<Rightarrow> error + MInstruction list" where
  "compile bf =
     bindE (compile_loop 0 bf ([\<lparr>iset = NOP, data = 0, bfp = 0\<rparr>], []))
       (\<lambda>st. Inr (fst st))"

text \<open>
  The machine object. \<open>stdout\<close> collects the cell values that \<open>OUT\<close> prints; the memory dump
  of \<open>DBG\<close> and the fault messages of \<open>run\<close> are not recorded.
\<close>

record BrainFuckMachine =
  program :: "MInstruction list"
  data_size :: int
  memory_size :: int
  memory :: "int list"
  pc :: int
  last_pc :: int
  mp :: int
  stdout :: "int list"

definition new_machine :: "MInstruction list \<Rightarrow> int \<Rightarrow> int \<Rightarrow> BrainFuckMachine" where
  "new_machine prog ds ms =
     \<lparr>program = prog, data_size = ds, memory_size = ms, memory = replicate (nat ms) 0,
      pc = 0, last_pc = 0, mp = 0, stdout = []\<rparr>"

text \<open>\<open>xs[k]\<close> in Python: a negative index counts from the end.\<close>

definition py_get :: "'a list \<Rightarrow> int \<Rightarrow> error + 'a" where
  "py_get xs k =
     (let n = int (length xs); j = (if k < 0 then n + k else k)
      in if 0 \<le> j \<and> j < n then Inr (xs ! nat j) else Inl IndexError)"

definition pcset :: "int \<Rightarrow> BrainFuckMachine \<Rightarrow> BrainFuckMachine" where
  "pcset v m = m\<lparr>last_pc := pc m, pc := v\<rparr>"

definition pcinc :: "BrainFuckMachine \<Rightarrow> BrainFuckMachine" where
  "pcinc m = pcset (pc m + 1) m"

definition print_len :: nat where
  "print_len = 15"

text \<open>The last lines of \<open>step\<close>: \<open>END\<close> once the counter has left the program.\<close>

definition step_result :: "BrainFuckMachine \<Rightarrow> error + (Result \<times> BrainFuckMachine)" where
  "step_result m = Inr (if pc m = int (length (program m)) then END else OK, m)"

definition step :: "BrainFuckMachine \<Rightarrow> error + (Result \<times> BrainFuckMachine)" where
  "step m =
     (if pc m < 0 \<or> pc m > int (length (program m)) then Inr (BUSFAULT, m)
      else
        bindE (py_get (program m) (pc m)) (\<lambda>ins.
          case iset ins of
            NOP \<Rightarrow> step_result (pcinc m)
          | ADD \<Rightarrow>
              if mp m < 0 \<or> mp m \<ge> memory_size m then Inr (SEGFAULT, m)
              else
                bindE (py_get (memory m) (mp m)) (\<lambda>v.
                  if data_size m = 0 then Inl ZeroDivisionError
                  else step_result
                         (pcinc (m\<lparr>memory := (memory m)[nat (mp m) := (v + data ins) mod data_size m]\<rparr>)))
          | MV \<Rightarrow> step_result (pcinc (m\<lparr>mp := mp m + data ins\<rparr>))
          | JMP \<Rightarrow> step_result (pcset (data ins) m)
          | JZ \<Rightarrow>
              bindE (py_get (memory m) (mp m)) (\<lambda>v.
                if v = 0 then step_result (pcset (data ins) m) else step_result (pcinc m))
          | OUT \<Rightarrow>
              bindE (py_get (memory m) (mp m)) (\<lambda>v.
                step_result (pcinc (m\<lparr>stdout := stdout m @ [v]\<rparr>)))
          | DBG \<Rightarrow>
              if length (memory m) < print_len then Inl IndexError
              else step_result (pcinc m)))"

text \<open>
  The \<open>match\<close> after the loop of \<open>run\<close>: a fault message names the instruction at
  \<open>last_pc\<close> (bus fault) or at \<open>pc\<close> (segmentation fault), and reading it can raise
  \<open>IndexError\<close>.
\<close>

definition run_result :: "Result \<Rightarrow> BrainFuckMachine \<Rightarrow> error + (Result \<times> BrainFuckMachine)" where
  "run_result res m =
     (case res of
        BUSFAULT \<Rightarrow> bindE (py_get (program m) (last_pc m)) (\<lambda>ins. Inr (res, m))
      | SEGFAULT \<Rightarrow> bindE (py_get (program m) (pc m)) (\<lambda>ins. Inr (res, m))
      | _ \<Rightarrow> Inr (res, m))"

text \<open>
  \<open>run\<close> repeats \<open>step\<close> while it answers \<open>OK\<close>. The loop need not end, so the model counts
  steps: \<open>None\<close> means that the given number of steps did not finish the run.
\<close>

fun run :: "nat \<Rightarrow> BrainFuckMachine \<Rightarrow> (error + (Result \<times> BrainFuckMachine)) option" where
  "run 0 m = None"
| "run (Suc n) m =
     (case step m of
        Inl e \<Rightarrow> Some (Inl e)
      | Inr (res, m') \<Rightarrow> if res = OK then run n m' else Some (run_result res m'))"

section \<open>A structured view of the tape language\<close>

text \<open>
  The rest of the definitions serve the proofs. \<open>blk\<close> is a block of tape commands with
  its last command outermost, so that \<open>compile\<close>'s merging of a run of \<open>+\<close>/\<open>-\<close> or
  \<open>>\<close>/\<open><\<close> into the last instruction is a pattern match. \<open>parse\<close> reads a text into a
  block the way \<open>compile\<close> reads it into instructions, \<open>flat\<close> lays a block out as the
  instructions \<open>compile\<close> produces, and \<open>exec\<close> is the big-step meaning of a block on a tape
  (memory, pointer, printed values) that the machine is shown to follow.
\<close>

datatype blk = Emp | SAdd blk int | SMv blk int | SOut blk | SDbg blk | SLoop blk blk

fun bsize :: "blk \<Rightarrow> nat" where
  "bsize Emp = 0"
| "bsize (SAdd p d) = Suc (bsize p)"
| "bsize (SMv p d) = Suc (bsize p)"
| "bsize (SOut p) = Suc (bsize p)"
| "bsize (SDbg p) = Suc (bsize p)"
| "bsize (SLoop p b) = bsize p + bsize b + 2"

fun flat :: "nat \<Rightarrow> blk \<Rightarrow> (ISet \<times> int) list" where
  "flat k Emp = []"
| "flat k (SAdd p d) = flat k p @ [(ADD, d)]"
| "flat k (SMv p d) = flat k p @ [(MV, d)]"
| "flat k (SOut p) = flat k p @ [(OUT, 0)]"
| "flat k (SDbg p) = flat k p @ [(DBG, 0)]"
| "flat k (SLoop p b) =
     flat k p @ [(JZ, int (k + bsize p + bsize b + 2))] @ flat (k + bsize p + 1) b
       @ [(JMP, int (k + bsize p))]"

fun padd :: "blk \<Rightarrow> int \<Rightarrow> blk" where
  "padd (SAdd p k) d = SAdd p (k + d)"
| "padd p d = SAdd p d"

fun pmv :: "blk \<Rightarrow> int \<Rightarrow> blk" where
  "pmv (SMv p k) d = SMv p (k + d)"
| "pmv p d = SMv p d"

fun pstep :: "char \<Rightarrow> blk list \<Rightarrow> blk list option" where
  "pstep c [] = None"
| "pstep c (cur # stk) =
     (if c = CHR ''+'' then Some (padd cur 1 # stk)
      else if c = CHR ''-'' then Some (padd cur (- 1) # stk)
      else if c = CHR ''>'' then Some (pmv cur 1 # stk)
      else if c = CHR ''<'' then Some (pmv cur (- 1) # stk)
      else if c = CHR ''.'' then Some (SOut cur # stk)
      else if c = CHR ''!'' then Some (SDbg cur # stk)
      else if c = CHR ''['' then Some (Emp # cur # stk)
      else if c = CHR '']'' then
        (case stk of [] \<Rightarrow> None | parent # rest \<Rightarrow> Some (SLoop parent cur # rest))
      else Some (cur # stk))"

fun pfold :: "string \<Rightarrow> blk list \<Rightarrow> blk list option" where
  "pfold [] st = Some st"
| "pfold (c # cs) st = (case pstep c st of None \<Rightarrow> None | Some st' \<Rightarrow> pfold cs st')"

definition parse :: "string \<Rightarrow> blk option" where
  "parse s = (case pfold s [Emp] of Some [p] \<Rightarrow> Some p | _ \<Rightarrow> None)"

text \<open>An instruction without its source position, which \<open>step\<close> never reads.\<close>

definition strip_ins :: "MInstruction \<Rightarrow> ISet \<times> int" where
  "strip_ins x = (iset x, data x)"

text \<open>
  The instructions and the loop stack of \<open>compile\<close> while the blocks \<open>ps\<close> (innermost first)
  are still open.
\<close>

fun ctx :: "blk list \<Rightarrow> (ISet \<times> int) list" where
  "ctx [] = [(NOP, 0)]"
| "ctx (p # ps) = ctx ps @ flat (length (ctx ps)) p @ [(JZ, 0)]"

fun jzs :: "blk list \<Rightarrow> nat list" where
  "jzs [] = []"
| "jzs (p # ps) = jzs ps @ [length (ctx ps) + bsize p]"

definition crel :: "blk list \<Rightarrow> MInstruction list \<times> nat list \<Rightarrow> bool" where
  "crel st cs = (case st of [] \<Rightarrow> False | cur # ps \<Rightarrow>
      map strip_ins (fst cs) = ctx ps @ flat (length (ctx ps)) cur \<and> snd cs = jzs ps)"

type_synonym tape = "int list \<times> int \<times> int list"

inductive exec :: "int \<Rightarrow> int \<Rightarrow> blk \<Rightarrow> tape \<Rightarrow> tape \<Rightarrow> bool"
  and loop :: "int \<Rightarrow> int \<Rightarrow> blk \<Rightarrow> tape \<Rightarrow> tape \<Rightarrow> bool"
  for ds :: int and ms :: int where
  exec_Emp: "exec ds ms Emp t t"
| exec_Add: "exec ds ms p t (mem, q, os) \<Longrightarrow> 0 \<le> q \<Longrightarrow> q < ms \<Longrightarrow> q < int (length mem) \<Longrightarrow> ds \<noteq> 0
     \<Longrightarrow> exec ds ms (SAdd p d) t (mem[nat q := (mem ! nat q + d) mod ds], q, os)"
| exec_Mv: "exec ds ms p t (mem, q, os) \<Longrightarrow> exec ds ms (SMv p d) t (mem, q + d, os)"
| exec_Out: "exec ds ms p t (mem, q, os) \<Longrightarrow> 0 \<le> q \<Longrightarrow> q < int (length mem)
     \<Longrightarrow> exec ds ms (SOut p) t (mem, q, os @ [mem ! nat q])"
| exec_Dbg: "exec ds ms p t (mem, q, os) \<Longrightarrow> print_len \<le> length mem
     \<Longrightarrow> exec ds ms (SDbg p) t (mem, q, os)"
| exec_Loop: "exec ds ms p t t1 \<Longrightarrow> loop ds ms b t1 t2 \<Longrightarrow> exec ds ms (SLoop p b) t t2"
| loop_exit: "0 \<le> q \<Longrightarrow> q < int (length mem) \<Longrightarrow> mem ! nat q = 0
     \<Longrightarrow> loop ds ms b (mem, q, os) (mem, q, os)"
| loop_iter: "0 \<le> q \<Longrightarrow> q < int (length mem) \<Longrightarrow> mem ! nat q \<noteq> 0
     \<Longrightarrow> exec ds ms b (mem, q, os) t1 \<Longrightarrow> loop ds ms b t1 t2 \<Longrightarrow> loop ds ms b (mem, q, os) t2"

text \<open>Machine steps that answer \<open>OK\<close> or \<open>END\<close>, repeated.\<close>

inductive steps :: "BrainFuckMachine \<Rightarrow> BrainFuckMachine \<Rightarrow> bool" where
  steps_refl: "steps m m"
| steps_step: "step m = Inr (r, m1) \<Longrightarrow> r = OK \<or> r = END \<Longrightarrow> steps m1 m2 \<Longrightarrow> steps m m2"

definition mstate ::
  "MInstruction list \<Rightarrow> int \<Rightarrow> int \<Rightarrow> nat \<Rightarrow> tape \<Rightarrow> BrainFuckMachine \<Rightarrow> bool" where
  "mstate P ds ms k t m =
     (program m = P \<and> data_size m = ds \<and> memory_size m = ms \<and> pc m = int k \<and>
      (memory m, mp m, stdout m) = t)"

text \<open>The meaning of a program text: the meaning of the block it parses to.\<close>

definition bsem :: "int \<Rightarrow> int \<Rightarrow> string \<Rightarrow> tape \<Rightarrow> tape \<Rightarrow> bool" where
  "bsem ds ms code t t' = (\<exists>p. parse code = Some p \<and> exec ds ms p t t')"

text \<open>The block of a concatenated text: commands merge across the seam as in \<open>compile\<close>.\<close>

fun join :: "blk \<Rightarrow> blk \<Rightarrow> blk" where
  "join p Emp = p"
| "join p (SAdd q d) = padd (join p q) d"
| "join p (SMv q d) = pmv (join p q) d"
| "join p (SOut q) = SOut (join p q)"
| "join p (SDbg q) = SDbg (join p q)"
| "join p (SLoop q b) = SLoop (join p q) b"

definition lift :: "blk \<Rightarrow> blk list \<Rightarrow> blk list \<Rightarrow> blk list" where
  "lift p stk st = butlast st @ [join p (last st)] @ stk"

definition bloop :: "int \<Rightarrow> int \<Rightarrow> string \<Rightarrow> tape \<Rightarrow> tape \<Rightarrow> bool" where
  "bloop ds ms b t t' = (\<exists>p. parse b = Some p \<and> loop ds ms (join Emp p) t t')"

definition bal :: "string \<Rightarrow> bool" where
  "bal s = (parse s \<noteq> None)"

section \<open>The emitted texts, by tape address\<close>

text \<open>
  \<open>pm\<close>, \<open>mv_code\<close>, \<open>cp_code\<close>, \<open>gt_setup_code\<close> and \<open>inot_code\<close> are the texts that
  \<open>ptr\<close>, \<open>mv\<close>, \<open>cp\<close>, \<open>gt_setup\<close> and \<open>inot\<close> return once the register names are resolved
  to addresses (lemmas \<open>ptr_pm\<close>, \<open>mv_eq\<close>, \<open>cp_eq\<close>, \<open>gt_setup_eq\<close>, \<open>inot_eq\<close>).
  \<open>addc\<close> adds to one cell modulo the cell base. \<open>gtl\<close> is the descent of the comparison
  loop on the cells TR3 and TR1. \<open>machine_at\<close> is a machine about to run a program on a
  given memory with the pointer on a given cell; \<open>runs\<close> says that compiling a text and
  running it there ends normally, and gives the memory and the pointer at the end;
  \<open>exec_text\<close> compiles a text and runs it for a number of steps.
\<close>

definition pm :: "nat \<Rightarrow> nat \<Rightarrow> string" where
  "pm s d = (if d > s then replicate (d - s) CHR ''>'' else replicate (s - d) CHR ''<'')"

definition addc :: "int \<Rightarrow> nat \<Rightarrow> int \<Rightarrow> int list \<Rightarrow> int list" where
  "addc ds k v mem = mem[k := (mem ! k + v) mod ds]"

definition mv_body :: "nat \<Rightarrow> nat \<Rightarrow> string" where
  "mv_body a b = CHR ''-'' # pm a b @ CHR ''+'' # pm b a"

definition fan_body :: "nat \<Rightarrow> nat \<Rightarrow> nat \<Rightarrow> string" where
  "fan_body x y z = CHR ''-'' # pm x y @ CHR ''+'' # pm y z @ CHR ''+'' # pm z x"

definition mv_code :: "nat \<Rightarrow> nat \<Rightarrow> string" where
  "mv_code a b = CHR ''['' # mv_body a b @ '']''"

definition cp_code :: "nat \<Rightarrow> nat \<Rightarrow> nat \<Rightarrow> string" where
  "cp_code s d t = (CHR ''['' # fan_body s d t @ '']'') @ pm s t @ mv_code t s @ pm t s"

definition gt_body :: "string" where
  "gt_body = ''-<<[<<->]>[>]<->>''"

definition gt_step :: "int \<Rightarrow> int list \<Rightarrow> int list" where
  "gt_step ds mem =
     (if mem ! 5 \<noteq> 0 then addc ds 5 (- 1) (addc ds 3 (- 1) (addc ds 7 (- 1) mem))
      else addc ds 5 (- 1) (addc ds 7 (- 1) mem))"

fun gtl :: "int \<Rightarrow> nat \<Rightarrow> int \<Rightarrow> int \<Rightarrow> int \<times> int" where
  "gtl ds 0 c r = (c, r)"
| "gtl ds (Suc n) c r =
     (if c \<noteq> 0 then gtl ds n ((c - 1) mod ds) ((r - 1) mod ds)
      else gtl ds n ((c - 1) mod ds) r)"

definition gt_setup_code :: "nat \<Rightarrow> nat \<Rightarrow> string" where
  "gt_setup_code a b = cp_code a 7 6 @ pm a b @ cp_code b 5 6 @ pm b 7 @ cp_code 7 3 4"

definition machine_at :: "MInstruction list \<Rightarrow> int \<Rightarrow> int list \<Rightarrow> nat \<Rightarrow> BrainFuckMachine" where
  "machine_at P ds mem k =
     \<lparr>program = P, data_size = ds, memory_size = int (length mem), memory = mem,
      pc = 0, last_pc = 0, mp = int k, stdout = []\<rparr>"

definition runs :: "string \<Rightarrow> int \<Rightarrow> int list \<Rightarrow> nat \<Rightarrow> int list \<Rightarrow> nat \<Rightarrow> bool" where
  "runs code ds mem k mem' k' =
     (\<exists>P n m'. compile code = Inr P \<and> run n (machine_at P ds mem k) = Some (Inr (END, m'))
        \<and> memory m' = mem' \<and> mp m' = int k')"

definition exec_text ::
  "nat \<Rightarrow> string \<Rightarrow> int \<Rightarrow> int list \<Rightarrow> nat \<Rightarrow> (error + (Result \<times> int list \<times> int)) option" where
  "exec_text n code ds mem k =
     (case compile code of
        Inl e \<Rightarrow> Some (Inl e)
      | Inr P \<Rightarrow>
          (case run n (machine_at P ds mem k) of
             None \<Rightarrow> None
           | Some (Inl e) \<Rightarrow> Some (Inl e)
           | Some (Inr (r, m')) \<Rightarrow> Some (Inr (r, memory m', mp m'))))"

definition inot_code :: "nat \<Rightarrow> nat \<Rightarrow> string" where
  "inot_code a d = pm a d @ ''+'' @ pm d a @ ''[[-]'' @ pm a d @ ''-'' @ pm d a @ '']''"


section \<open>Bracket counts and pointer contracts\<close>

text \<open>
  \<open>net\<close> is the number of loop openings of a text minus the number of its loop closings.
  \<open>wfm\<close> is a memory of a given size whose cells all lie in \<open>[0, base)\<close>. \<open>wk\<close> says that a
  text, run from any such memory with the pointer on cell \<open>q\<close>, ends normally with the
  pointer on cell \<open>q'\<close>, the memory still well-formed and the cells of \<open>K\<close> unchanged.
  \<open>sub1_code\<close>, \<open>sub2_code\<close>, \<open>branch_tail\<close>, \<open>gt_tail\<close> and \<open>branch_reg_code\<close> are the parts
  of the texts that \<open>BFI.branch\<close> (register operand) and \<open>BFI.gt\<close> emit, by address.
  \<open>nest\<close> is the text that follows the line of increments in an assembled program, written
  by its loops: given the block heads (a block without its closing \<open><]>\<close>) last block
  first, each level is a loop opening and its decrement, the inner levels, the head of the
  level's block, and that block's closing.
\<close>

definition net :: "string \<Rightarrow> int" where
  "net s = int (count_list s CHR ''['') - int (count_list s CHR '']'')"

definition netE :: "error + string \<Rightarrow> int" where
  "netE p = (case p of Inl e \<Rightarrow> 0 | Inr x \<Rightarrow> net x)"

definition wfm :: "int \<Rightarrow> nat \<Rightarrow> int list \<Rightarrow> bool" where
  "wfm ds n mem = (length mem = n \<and> (\<forall>x\<in>set mem. 0 \<le> x \<and> x < ds))"

definition wk :: "int \<Rightarrow> nat \<Rightarrow> nat set \<Rightarrow> string \<Rightarrow> nat \<Rightarrow> nat \<Rightarrow> bool" where
  "wk ds n K code q q' =
     (\<forall>mem os. wfm ds n mem \<longrightarrow>
        (\<exists>mem' os'. bsem ds (int n) code (mem, int q, os) (mem', int q', os')
           \<and> wfm ds n mem' \<and> (\<forall>k\<in>K. mem' ! k = mem ! k)))"

definition sub1_code :: "nat \<Rightarrow> string" where
  "sub1_code k = pm 3 9 @ cp_code 9 5 7 @ pm 9 k @ cp_code k 6 7 @ pm k 6 @ ''[-<->]'' @ pm 6 5"

definition sub2_code :: "nat \<Rightarrow> string" where
  "sub2_code k = pm 4 9 @ cp_code 9 6 7 @ pm 9 k @ cp_code k 5 7 @ pm k 6 @ ''[-<->]'' @ pm 6 5"

definition branch_tail :: "nat \<Rightarrow> string" where
  "branch_tail k =
     ''\<newline>'' @ cp_code 3 5 6 @ pm 3 5 @ inot_code 5 4 @ pm 5 3 @ ''\<newline>'' @
     (CHR ''['' # ((sub1_code k @ ''\<newline>'' @ ''+'' @ mv_code 5 0 @ pm 5 3) @ ''-'') @ '']'') @
     ''\<newline>'' @ pm 3 4 @
     (CHR ''['' # ((sub2_code k @ mv_code 5 1 @ pm 5 4) @ ''-'') @ '']'') @ pm 4 2"

definition gt_tail :: "string" where
  "gt_tail = ''\<newline>'' @ mv_code 3 8 @ ''\<newline>'' @ pm 3 2"

definition branch_reg_code :: "nat \<Rightarrow> string" where
  "branch_reg_code k = pm 2 9 @ gt_setup_code 9 k @ gt_code @ branch_tail k"

fun nest :: "string list \<Rightarrow> string" where
  "nest [] = ''\<newline>>\<newline>''"
| "nest (h # hs) = CHR ''['' # (CHR ''-'' # nest hs @ h @ ''<'') @ '']>\<newline>''"

section \<open>Concrete inputs\<close>

text \<open>
  The tokens of the three lines \<open>x:\<close>, \<open>OUT R1\<close>, \<open>x:\<close>: the label \<open>x\<close> is defined twice.
\<close>

definition dup_label_tokens :: "Token list" where
  "dup_label_tokens =
     [\<lparr>tvalue = ''x'', ttype = TK_LABEL, line = 1, cols = (1, 2)\<rparr>,
      \<lparr>tvalue = [], ttype = TK_NEWLINE, line = 1, cols = (3, 4)\<rparr>,
      \<lparr>tvalue = ''OUT'', ttype = TK_WORD, line = 2, cols = (1, 4)\<rparr>,
      \<lparr>tvalue = ''R1'', ttype = TK_WORD, line = 2, cols = (5, 7)\<rparr>,
      \<lparr>tvalue = [], ttype = TK_NEWLINE, line = 2, cols = (7, 8)\<rparr>,
      \<lparr>tvalue = ''x'', ttype = TK_LABEL, line = 3, cols = (1, 2)\<rparr>,
      \<lparr>tvalue = [], ttype = TK_NEWLINE, line = 3, cols = (3, 4)\<rparr>]"

section \<open>Registers and addresses\<close>

lemmas reg_simps = IRegisters_def URegisters_def Registers_def check_reg_def check_ureg_def
  address_of_def bindE_def ptr_def

section \<open>The machine follows the structured semantics\<close>

subsection \<open>\<open>compile\<close> lays out the parsed block\<close>

lemma length_flat [simp]: "length (flat k p) = bsize p"
  by (induction p arbitrary: k) auto

lemma ctx_nonempty [simp]: "ctx ps \<noteq> []"
  by (cases ps) auto

lemma ctx_last: "fst (last (ctx ps)) = NOP \<or> fst (last (ctx ps)) = JZ"
  by (cases ps) auto

lemma strip_last: "prog \<noteq> [] \<Longrightarrow> strip_ins (last prog) = last (map strip_ins prog)"
  by (simp add: last_map)

lemma map_strip_bump:
  "map strip_ins prog = xs @ [(c, k)] \<Longrightarrow> map strip_ins (bump_last prog d) = xs @ [(c, k + d)]"
proof -
  assume a: "map strip_ins prog = xs @ [(c, k)]"
  then have ne: "prog \<noteq> []" by auto
  then obtain ys y where p: "prog = ys @ [y]" by (metis append_butlast_last_id)
  with a have "map strip_ins ys = xs" "strip_ins y = (c, k)" by auto
  then show ?thesis using p by (auto simp: bump_last_def strip_ins_def)
qed

lemma last_kind:
  assumes "map strip_ins prog = ctx ps @ flat (length (ctx ps)) cur"
  shows "iset (last prog) = ADD \<longleftrightarrow> (\<exists>q k. cur = SAdd q k)"
    and "iset (last prog) = MV \<longleftrightarrow> (\<exists>q k. cur = SMv q k)"
proof -
  from assms have ne: "prog \<noteq> []" by (metis Nil_is_append_conv Nil_is_map_conv ctx_nonempty)
  have l: "iset (last prog) = fst (last (ctx ps @ flat (length (ctx ps)) cur))"
    using strip_last[OF ne] assms by (simp add: strip_ins_def) (metis fst_conv)
  show "iset (last prog) = ADD \<longleftrightarrow> (\<exists>q k. cur = SAdd q k)"
    using ctx_last[of ps] by (cases cur) (auto simp: l)
  show "iset (last prog) = MV \<longleftrightarrow> (\<exists>q k. cur = SMv q k)"
    using ctx_last[of ps] by (cases cur) (auto simp: l)
qed

lemma crel_step:
  assumes "pstep c st = Some st'" "crel st cs"
  shows "\<exists>cs'. compile_char i c cs = Inr cs' \<and> crel st' cs'"
proof -
  obtain prog stk where cs: "cs = (prog, stk)" by (cases cs)
  from assms(2) obtain cur ps where st: "st = cur # ps" by (cases st) (auto simp: crel_def)
  from assms(2) have m: "map strip_ins prog = ctx ps @ flat (length (ctx ps)) cur"
    and s: "stk = jzs ps" by (auto simp: crel_def st cs)
  note lk = last_kind[OF m]
  have len: "length prog = length (ctx ps) + bsize cur"
    using arg_cong[OF m, of length] by simp
  consider (add) d :: int where "c = CHR ''+'' \<and> d = 1 \<or> c = CHR ''-'' \<and> d = - 1"
    | (mv) d :: int where "c = CHR ''>'' \<and> d = 1 \<or> c = CHR ''<'' \<and> d = - 1"
    | (out) "c = CHR ''.''" | (dbg) "c = CHR ''!''" | (op) "c = CHR ''[''" | (cl) "c = CHR '']''"
    | (other) "c \<notin> set ''+-><.![]''" by auto
  then show ?thesis
  proof cases
    case add
    then have st': "st' = padd cur d # ps" using assms(1) st by auto
    show ?thesis
    proof (cases "\<exists>q k. cur = SAdd q k")
      case True
      then obtain q k where c: "cur = SAdd q k" by auto
      have "map strip_ins (bump_last prog d) = (ctx ps @ flat (length (ctx ps)) q) @ [(ADD, k + d)]"
        by (rule map_strip_bump) (simp add: m c)
      then show ?thesis using add lk True c
        by (auto simp: compile_char_def cs crel_def st' s)
    next
      case False
      then have "padd cur d = SAdd cur d" by (cases cur) auto
      then show ?thesis using add lk False
        by (auto simp: compile_char_def cs crel_def st' s m strip_ins_def)
    qed
  next
    case mv
    then have st': "st' = pmv cur d # ps" using assms(1) st by auto
    show ?thesis
    proof (cases "\<exists>q k. cur = SMv q k")
      case True
      then obtain q k where c: "cur = SMv q k" by auto
      have "map strip_ins (bump_last prog d) = (ctx ps @ flat (length (ctx ps)) q) @ [(MV, k + d)]"
        by (rule map_strip_bump) (simp add: m c)
      then show ?thesis using mv lk True c
        by (auto simp: compile_char_def cs crel_def st' s)
    next
      case False
      then have "pmv cur d = SMv cur d" by (cases cur) auto
      then show ?thesis using mv lk False
        by (auto simp: compile_char_def cs crel_def st' s m strip_ins_def)
    qed
  next
    case out
    then show ?thesis using assms(1) st
      by (auto simp: compile_char_def cs crel_def s m strip_ins_def)
  next
    case dbg
    then show ?thesis using assms(1) st
      by (auto simp: compile_char_def cs crel_def s m strip_ins_def)
  next
    case op
    then show ?thesis using assms(1) st
      by (auto simp: compile_char_def cs crel_def s m strip_ins_def len)
  next
    case cl
    with assms(1) st obtain parent rest where ps: "ps = parent # rest"
      and st': "st' = SLoop parent cur # rest" by (cases ps) auto
    let ?k0 = "length (ctx rest)"
    let ?addr = "?k0 + bsize parent"
    let ?A = "ctx rest @ flat ?k0 parent"
    have m': "map strip_ins prog = ?A @ [(JZ, 0)] @ flat (Suc ?addr) cur"
      using m by (simp add: ps)
    have la: "length ?A = ?addr" by simp
    let ?prog' = "prog @ [\<lparr>iset = JMP, data = int ?addr, bfp = i\<rparr>]"
    let ?new = "?prog'[?addr := (?prog' ! ?addr)\<lparr>data := int (length ?prog')\<rparr>]"
    have lp: "length prog = ?addr + 1 + bsize cur" using len by (simp add: ps)
    have nth: "strip_ins (?prog' ! ?addr) = (JZ, 0)"
    proof -
      have "?addr < length prog" using lp by simp
      then have "strip_ins (?prog' ! ?addr) = map strip_ins prog ! ?addr"
        by (simp add: nth_append)
      also have "\<dots> = (JZ, 0)" unfolding m' using la by (metis nth_append_length append_Cons append_Nil)
      finally show ?thesis .
    qed
    have "map strip_ins ?new = (map strip_ins ?prog')[?addr := (JZ, int (length ?prog'))]"
      using nth by (simp add: map_update strip_ins_def)
    also have "map strip_ins ?prog' = ?A @ [(JZ, 0)] @ flat (Suc ?addr) cur @ [(JMP, int ?addr)]"
      using m' by (simp add: strip_ins_def)
    also have "(\<dots>)[?addr := (JZ, int (length ?prog'))]
        = ?A @ [(JZ, int (length ?prog'))] @ flat (Suc ?addr) cur @ [(JMP, int ?addr)]"
      using la by (metis list_update_length append_Cons append_Nil)
    finally have "map strip_ins ?new = ctx rest @ flat ?k0 (SLoop parent cur)"
      using lp by simp
    moreover have "last stk = ?addr" "butlast stk = jzs rest" "stk \<noteq> []"
      using s ps by auto
    ultimately show ?thesis using cl
      by (simp add: compile_char_def cs crel_def st' Let_def)
  next
    case other
    then show ?thesis using assms st by (auto simp: compile_char_def cs)
  qed
qed

lemma crel_loop:
  "pfold s st = Some st' \<Longrightarrow> crel st cs \<Longrightarrow> \<exists>cs'. compile_loop i s cs = Inr cs' \<and> crel st' cs'"
proof (induction s arbitrary: st cs i)
  case Nil
  then show ?case by simp
next
  case (Cons c s)
  from Cons.prems(1) obtain st1 where p1: "pstep c st = Some st1" and p2: "pfold s st1 = Some st'"
    by (auto split: option.splits)
  from crel_step[OF p1 Cons.prems(2)] obtain cs1 where
    c1: "compile_char i c cs = Inr cs1" and r1: "crel st1 cs1" by blast
  from Cons.IH[OF p2 r1] show ?case using c1 by (simp add: bindE_def)
qed

theorem compile_parse:
  assumes "parse s = Some p"
  shows "\<exists>P. compile s = Inr P \<and> map strip_ins P = (NOP, 0) # flat 1 p"
proof -
  from assms have pf: "pfold s [Emp] = Some [p]"
    by (auto simp: parse_def split: option.splits list.splits)
  have r0: "crel [Emp] ([\<lparr>iset = NOP, data = 0, bfp = 0\<rparr>], [])"
    by (simp add: crel_def strip_ins_def)
  from crel_loop[OF pf r0, of 0] show ?thesis
    by (auto simp: compile_def bindE_def crel_def)
qed

subsection \<open>Simulation\<close>

lemma steps_trans: "steps a b \<Longrightarrow> steps b c \<Longrightarrow> steps a c"
  by (induction rule: steps.induct) (auto intro: steps.intros)

lemma steps_one: "step m = Inr (r, m1) \<Longrightarrow> r = OK \<or> r = END \<Longrightarrow> steps m m1"
  by (auto intro: steps.intros)

lemma ins_at:
  assumes "map strip_ins P = pre @ x # post"
  shows "py_get P (int (length pre)) = Inr (P ! length pre)" "strip_ins (P ! length pre) = x"
proof -
  have l: "length P = length pre + Suc (length post)"
    using arg_cong[OF assms, of length] by simp
  then show "py_get P (int (length pre)) = Inr (P ! length pre)"
    by (simp add: py_get_def)
  have "strip_ins (P ! length pre) = map strip_ins P ! length pre"
    using l by simp
  then show "strip_ins (P ! length pre) = x" by (simp add: assms)
qed

lemma pc_in_range:
  assumes "map strip_ins P = pre @ x # post"
  shows "\<not> (int (length pre) > int (length P))"
  using arg_cong[OF assms, of length] by simp

lemma step_result_ok: "\<exists>r. step_result m = Inr (r, m) \<and> (r = OK \<or> r = END)"
  by (simp add: step_result_def)

lemma sim_Add:
  assumes "map strip_ins P = pre @ (ADD, d) # post" "mstate P ds ms (length pre) (mem, q, os) m"
    "0 \<le> q" "q < ms" "q < int (length mem)" "ds \<noteq> 0"
  shows "\<exists>m'. steps m m' \<and> mstate P ds ms (Suc (length pre)) (mem[nat q := (mem ! nat q + d) mod ds], q, os) m'"
proof -
  let ?m' = "pcinc (m\<lparr>memory := (memory m)[nat (mp m) := (mem ! nat q + d) mod data_size m]\<rparr>)"
  have "step m = step_result ?m'"
    using assms ins_at[OF assms(1)] pc_in_range[OF assms(1)]
    by (auto simp: step_def mstate_def bindE_def strip_ins_def py_get_def)
  moreover have "mstate P ds ms (Suc (length pre)) (mem[nat q := (mem ! nat q + d) mod ds], q, os) ?m'"
    using assms(2) by (auto simp: mstate_def pcinc_def pcset_def)
  ultimately show ?thesis using step_result_ok[of ?m'] steps_one by metis
qed

lemma sim_Mv:
  assumes "map strip_ins P = pre @ (MV, d) # post" "mstate P ds ms (length pre) (mem, q, os) m"
  shows "\<exists>m'. steps m m' \<and> mstate P ds ms (Suc (length pre)) (mem, q + d, os) m'"
proof -
  let ?m' = "pcinc (m\<lparr>mp := mp m + d\<rparr>)"
  have "step m = step_result ?m'"
    using assms ins_at[OF assms(1)] pc_in_range[OF assms(1)]
    by (auto simp: step_def mstate_def bindE_def strip_ins_def)
  moreover have "mstate P ds ms (Suc (length pre)) (mem, q + d, os) ?m'"
    using assms(2) by (auto simp: mstate_def pcinc_def pcset_def)
  ultimately show ?thesis using step_result_ok[of ?m'] steps_one by metis
qed

lemma sim_Out:
  assumes "map strip_ins P = pre @ (OUT, d) # post" "mstate P ds ms (length pre) (mem, q, os) m"
    "0 \<le> q" "q < int (length mem)"
  shows "\<exists>m'. steps m m' \<and> mstate P ds ms (Suc (length pre)) (mem, q, os @ [mem ! nat q]) m'"
proof -
  let ?m' = "pcinc (m\<lparr>stdout := stdout m @ [mem ! nat q]\<rparr>)"
  have "step m = step_result ?m'"
    using assms ins_at[OF assms(1)] pc_in_range[OF assms(1)]
    by (auto simp: step_def mstate_def bindE_def strip_ins_def py_get_def)
  moreover have "mstate P ds ms (Suc (length pre)) (mem, q, os @ [mem ! nat q]) ?m'"
    using assms(2) by (auto simp: mstate_def pcinc_def pcset_def)
  ultimately show ?thesis using step_result_ok[of ?m'] steps_one by metis
qed

lemma sim_Dbg:
  assumes "map strip_ins P = pre @ (DBG, d) # post" "mstate P ds ms (length pre) (mem, q, os) m"
    "print_len \<le> length mem"
  shows "\<exists>m'. steps m m' \<and> mstate P ds ms (Suc (length pre)) (mem, q, os) m'"
proof -
  let ?m' = "pcinc m"
  have "step m = step_result ?m'"
    using assms ins_at[OF assms(1)] pc_in_range[OF assms(1)]
    by (auto simp: step_def mstate_def bindE_def strip_ins_def)
  moreover have "mstate P ds ms (Suc (length pre)) (mem, q, os) ?m'"
    using assms(2) by (auto simp: mstate_def pcinc_def pcset_def)
  ultimately show ?thesis using step_result_ok[of ?m'] steps_one by metis
qed

lemma sim_Jz:
  assumes "map strip_ins P = pre @ (JZ, int k) # post" "mstate P ds ms (length pre) (mem, q, os) m"
    "0 \<le> q" "q < int (length mem)"
  shows "\<exists>m'. steps m m' \<and>
     mstate P ds ms (if mem ! nat q = 0 then k else Suc (length pre)) (mem, q, os) m'"
proof -
  let ?m' = "if mem ! nat q = 0 then pcset (int k) m else pcinc m"
  have "step m = step_result ?m'"
    using assms ins_at[OF assms(1)] pc_in_range[OF assms(1)]
    by (auto simp: step_def mstate_def bindE_def strip_ins_def py_get_def)
  moreover have "mstate P ds ms (if mem ! nat q = 0 then k else Suc (length pre)) (mem, q, os) ?m'"
    using assms(2) by (auto simp: mstate_def pcinc_def pcset_def)
  ultimately show ?thesis using step_result_ok[of ?m'] steps_one by metis
qed

lemma sim_Jmp:
  assumes "map strip_ins P = pre @ (JMP, int k) # post" "mstate P ds ms (length pre) t m"
  shows "\<exists>m'. steps m m' \<and> mstate P ds ms k t m'"
proof -
  let ?m' = "pcset (int k) m"
  have "step m = step_result ?m'"
    using assms ins_at[OF assms(1)] pc_in_range[OF assms(1)]
    by (auto simp: step_def mstate_def bindE_def strip_ins_def)
  moreover have "mstate P ds ms k t ?m'"
    using assms(2) by (auto simp: mstate_def pcset_def)
  ultimately show ?thesis using step_result_ok[of ?m'] steps_one by metis
qed

lemma sim:
  "exec ds ms p t t' \<Longrightarrow> map strip_ins P = pre @ flat (length pre) p @ post \<Longrightarrow>
     mstate P ds ms (length pre) t m \<Longrightarrow>
     \<exists>m'. steps m m' \<and> mstate P ds ms (length pre + bsize p) t' m'"
  "loop ds ms b t t' \<Longrightarrow> map strip_ins P =
       pre @ [(JZ, int (length pre + bsize b + 2))] @ flat (length pre + 1) b
         @ [(JMP, int (length pre))] @ post \<Longrightarrow>
     mstate P ds ms (length pre) t m \<Longrightarrow>
     \<exists>m'. steps m m' \<and> mstate P ds ms (length pre + bsize b + 2) t' m'"
proof (induct arbitrary: P pre post m and P pre post m rule: exec_loop.inducts)
  case (exec_Emp t)
  then show ?case by (auto intro: steps_refl)
next
  case (exec_Add p t mem q os d)
  let ?pre = "pre @ flat (length pre) p"
  from exec_Add.prems(1) have P: "map strip_ins P = pre @ flat (length pre) p @ ((ADD, d) # post)"
    by simp
  from exec_Add.hyps(2)[OF P exec_Add.prems(2)] obtain m1 where
    s1: "steps m m1" and m1: "mstate P ds ms (length ?pre) (mem, q, os) m1" by auto
  have P2: "map strip_ins P = ?pre @ (ADD, d) # post" using P by simp
  from sim_Add[OF P2 m1 exec_Add.hyps(3-6)] obtain m2 where
    "steps m1 m2" "mstate P ds ms (Suc (length ?pre)) (mem[nat q := (mem ! nat q + d) mod ds], q, os) m2"
    by blast
  then show ?case using s1 steps_trans by auto
next
  case (exec_Mv p t mem q os d)
  let ?pre = "pre @ flat (length pre) p"
  from exec_Mv.prems(1) have P: "map strip_ins P = pre @ flat (length pre) p @ ((MV, d) # post)"
    by simp
  from exec_Mv.hyps(2)[OF P exec_Mv.prems(2)] obtain m1 where
    s1: "steps m m1" and m1: "mstate P ds ms (length ?pre) (mem, q, os) m1" by auto
  have P2: "map strip_ins P = ?pre @ (MV, d) # post" using P by simp
  from sim_Mv[OF P2 m1] obtain m2 where
    "steps m1 m2" "mstate P ds ms (Suc (length ?pre)) (mem, q + d, os) m2"
    by blast
  then show ?case using s1 steps_trans by auto
next
  case (exec_Out p t mem q os)
  let ?pre = "pre @ flat (length pre) p"
  from exec_Out.prems(1) have P: "map strip_ins P = pre @ flat (length pre) p @ ((OUT, 0) # post)"
    by simp
  from exec_Out.hyps(2)[OF P exec_Out.prems(2)] obtain m1 where
    s1: "steps m m1" and m1: "mstate P ds ms (length ?pre) (mem, q, os) m1" by auto
  have P2: "map strip_ins P = ?pre @ (OUT, 0) # post" using P by simp
  from sim_Out[OF P2 m1 exec_Out.hyps(3,4)] obtain m2 where
    "steps m1 m2" "mstate P ds ms (Suc (length ?pre)) (mem, q, os @ [mem ! nat q]) m2"
    by blast
  then show ?case using s1 steps_trans by auto
next
  case (exec_Dbg p t mem q os)
  let ?pre = "pre @ flat (length pre) p"
  from exec_Dbg.prems(1) have P: "map strip_ins P = pre @ flat (length pre) p @ ((DBG, 0) # post)"
    by simp
  from exec_Dbg.hyps(2)[OF P exec_Dbg.prems(2)] obtain m1 where
    s1: "steps m m1" and m1: "mstate P ds ms (length ?pre) (mem, q, os) m1" by auto
  have P2: "map strip_ins P = ?pre @ (DBG, 0) # post" using P by simp
  from sim_Dbg[OF P2 m1 exec_Dbg.hyps(3)] obtain m2 where
    "steps m1 m2" "mstate P ds ms (Suc (length ?pre)) (mem, q, os) m2"
    by blast
  then show ?case using s1 steps_trans by auto
next
  case (exec_Loop p t t1 b t2)
  let ?pre = "pre @ flat (length pre) p"
  from exec_Loop.prems(1) have P: "map strip_ins P = pre @ flat (length pre) p @
      ([(JZ, int (length pre + bsize p + bsize b + 2))] @ flat (length pre + bsize p + 1) b
        @ [(JMP, int (length pre + bsize p))] @ post)"
    by simp
  from exec_Loop.hyps(2)[OF P exec_Loop.prems(2)] obtain m1 where
    s1: "steps m m1" and m1: "mstate P ds ms (length pre + bsize p) t1 m1" by blast
  have P2: "map strip_ins P = ?pre @ [(JZ, int (length ?pre + bsize b + 2))]
      @ flat (length ?pre + 1) b @ [(JMP, int (length ?pre))] @ post"
    using P by simp
  from exec_Loop.hyps(4)[OF P2] m1 obtain m2 where
    "steps m1 m2" "mstate P ds ms (length ?pre + bsize b + 2) t2 m2" by auto
  then show ?case using s1 steps_trans by (auto simp: add.assoc)
next
  case (loop_exit q mem b os)
  from loop_exit.prems(1) have P: "map strip_ins P = pre @ (JZ, int (length pre + bsize b + 2)) #
      (flat (length pre + 1) b @ [(JMP, int (length pre))] @ post)" by simp
  from sim_Jz[OF P loop_exit.prems(2) loop_exit.hyps(1,2)] loop_exit.hyps(3)
  show ?case by auto
next
  case (loop_iter q mem b os t1 t2)
  from loop_iter.prems(1) have P: "map strip_ins P = pre @ (JZ, int (length pre + bsize b + 2)) #
      (flat (length pre + 1) b @ [(JMP, int (length pre))] @ post)" by simp
  from sim_Jz[OF P loop_iter.prems(2) loop_iter.hyps(1,2)] loop_iter.hyps(3)
  obtain m1 where s1: "steps m m1" and m1: "mstate P ds ms (Suc (length pre)) (mem, q, os) m1"
    by auto
  let ?pre = "pre @ [(JZ, int (length pre + bsize b + 2))]"
  have Pb: "map strip_ins P = ?pre @ flat (length ?pre) b @ ([(JMP, int (length pre))] @ post)"
    using P by simp
  from loop_iter.hyps(5)[OF Pb] m1 obtain m2 where
    s2: "steps m1 m2" and m2: "mstate P ds ms (length ?pre + bsize b) t1 m2" by auto
  have Pj: "map strip_ins P = (?pre @ flat (length ?pre) b) @ (JMP, int (length pre)) # post"
    using P by simp
  from sim_Jmp[OF Pj] m2 obtain m3 where
    s3: "steps m2 m3" and m3: "mstate P ds ms (length pre) t1 m3" by fastforce
  from loop_iter.hyps(7)[OF loop_iter.prems(1) m3] obtain m4 where
    "steps m3 m4" "mstate P ds ms (length pre + bsize b + 2) t2 m4" by blast
  then show ?case using s1 s2 s3 steps_trans by blast
qed

lemma step_program:
  "step m = Inr (r, m') \<Longrightarrow> program m' = program m"
  by (auto simp: step_def step_result_def bindE_def pcinc_def pcset_def
      split: if_splits sum.splits ISet.splits)

lemma step_end:
  "step m = Inr (r, m') \<Longrightarrow> r = OK \<or> r = END \<Longrightarrow> (r = END) = (pc m' = int (length (program m')))"
  by (auto simp: step_def step_result_def bindE_def pcinc_def pcset_def
      split: if_splits sum.splits ISet.splits)

lemma step_at_end: "pc m = int (length (program m)) \<Longrightarrow> step m = Inl IndexError"
  by (simp add: step_def py_get_def bindE_def)

lemma steps_run:
  "steps m m' \<Longrightarrow> pc m \<noteq> int (length (program m)) \<Longrightarrow> pc m' = int (length (program m'))
     \<Longrightarrow> \<exists>n. run n m = Some (Inr (END, m'))"
proof (induction rule: steps.induct)
  case (steps_refl m)
  then show ?case by simp
next
  case (steps_step m r m1 m2)
  show ?case
  proof (cases "r = END")
    case True
    then have e: "pc m1 = int (length (program m1))"
      using step_end[OF steps_step.hyps(1,2)] by simp
    have "m2 = m1" using steps_step.hyps(3) step_at_end[OF e]
      by (cases rule: steps.cases) auto
    then have "run (Suc 0) m = Some (Inr (END, m2))"
      using steps_step.hyps(1) True by (simp add: run_result_def)
    then show ?thesis by blast
  next
    case False
    then have ok: "r = OK" using steps_step.hyps(2) by simp
    then have "pc m1 \<noteq> int (length (program m1))"
      using step_end[OF steps_step.hyps(1,2)] by simp
    from steps_step.IH[OF this steps_step.prems(2)] obtain n where
      "run n m1 = Some (Inr (END, m2))" by blast
    then have "run (Suc n) m = Some (Inr (END, m2))"
      using steps_step.hyps(1) ok by simp
    then show ?thesis by blast
  qed
qed

theorem bsem_run:
  assumes "bsem ds ms code (mem, q, os) (mem', q', os')"
  shows "\<exists>P. compile code = Inr P \<and>
     (\<forall>l. \<exists>n m'. run n \<lparr>program = P, data_size = ds, memory_size = ms, memory = mem,
                      pc = 0, last_pc = l, mp = q, stdout = os\<rparr> = Some (Inr (END, m'))
        \<and> memory m' = mem' \<and> mp m' = q' \<and> stdout m' = os' \<and> program m' = P
        \<and> data_size m' = ds \<and> memory_size m' = ms)"
proof -
  from assms obtain p where p: "parse code = Some p" and e: "exec ds ms p (mem, q, os) (mem', q', os')"
    by (auto simp: bsem_def)
  from compile_parse[OF p] obtain P where c: "compile code = Inr P"
    and P: "map strip_ins P = (NOP, 0) # flat 1 p" by auto
  have "\<exists>n m'. run n \<lparr>program = P, data_size = ds, memory_size = ms, memory = mem,
                      pc = 0, last_pc = l, mp = q, stdout = os\<rparr> = Some (Inr (END, m'))
        \<and> memory m' = mem' \<and> mp m' = q' \<and> stdout m' = os' \<and> program m' = P
        \<and> data_size m' = ds \<and> memory_size m' = ms" for l
  proof -
    let ?m = "\<lparr>program = P, data_size = ds, memory_size = ms, memory = mem,
                      pc = 0, last_pc = l, mp = q, stdout = os\<rparr>"
    have lenP: "length P = Suc (bsize p)" using arg_cong[OF P, of length] by simp
    have P0: "map strip_ins P = [] @ (NOP, 0) # flat 1 p" using P by simp
    have "step ?m = step_result (pcinc ?m)"
      using ins_at[OF P0] by (auto simp: step_def bindE_def strip_ins_def lenP)
    then obtain r where st: "step ?m = Inr (r, pcinc ?m)" "r = OK \<or> r = END"
      using step_result_ok[of "pcinc ?m"] by auto
    have m1: "mstate P ds ms (length [(NOP, 0::int)]) (mem, q, os) (pcinc ?m)"
      by (simp add: mstate_def pcinc_def pcset_def)
    have P1: "map strip_ins P = [(NOP, 0)] @ flat (length [(NOP, 0::int)]) p @ []" using P by simp
    from sim(1)[OF e P1 m1] obtain m' where s: "steps (pcinc ?m) m'"
      and m': "mstate P ds ms (length [(NOP, 0::int)] + bsize p) (mem', q', os') m'" by blast
    have "steps ?m m'" using st s by (auto intro: steps.intros)
    moreover have "pc ?m \<noteq> int (length (program ?m))" by (simp add: lenP)
    moreover have "pc m' = int (length (program m'))" using m' by (simp add: mstate_def lenP)
    ultimately obtain n where "run n ?m = Some (Inr (END, m'))" using steps_run by blast
    then show ?thesis using m' by (auto simp: mstate_def)
  qed
  then show ?thesis using c by blast
qed

subsection \<open>Rules for program texts\<close>

lemma padd_padd: "padd (padd x k) d = padd x (k + d)"
  by (cases x) auto

lemma pmv_pmv: "pmv (pmv x k) d = pmv x (k + d)"
  by (cases x) auto

lemma join_padd: "join p (padd q d) = padd (join p q) d"
  by (cases q) (auto simp: padd_padd)

lemma join_pmv: "join p (pmv q d) = pmv (join p q) d"
  by (cases q) (auto simp: pmv_pmv)

lemma lift_single: "lift p stk [b] = join p b # stk"
  by (simp add: lift_def)

lemma lift_cons: "st \<noteq> [] \<Longrightarrow> lift p stk (b # st) = b # lift p stk st"
  by (simp add: lift_def)

lemma pstep_lift:
  assumes "pstep c st = Some st'"
  shows "pstep c (lift p stk st) = Some (lift p stk st')"
proof -
  from assms obtain cur rest where st: "st = cur # rest" by (cases st) auto
  show ?thesis
  proof (cases rest)
    case Nil
    then show ?thesis using assms st
      by (auto simp: lift_single lift_cons join_padd join_pmv split: if_splits)
  next
    case (Cons parent rest')
    show ?thesis
    proof (cases rest')
      case Nil
      then show ?thesis using assms st Cons
        by (auto simp: lift_single lift_cons split: if_splits)
    next
      case (Cons x xs)
      then show ?thesis using assms st \<open>rest = parent # rest'\<close>
        by (auto simp: lift_cons split: if_splits)
    qed
  qed
qed

lemma pfold_lift:
  "pfold s st = Some st' \<Longrightarrow> pfold s (lift p stk st) = Some (lift p stk st')"
proof (induction s arbitrary: st)
  case Nil
  then show ?case by simp
next
  case (Cons c s)
  from Cons.prems obtain st1 where a: "pstep c st = Some st1" and b: "pfold s st1 = Some st'"
    by (auto split: option.splits)
  show ?case using pstep_lift[OF a] Cons.IH[OF b] by simp
qed

lemma pfold_append:
  "pfold (a @ b) st = (case pfold a st of None \<Rightarrow> None | Some st1 \<Rightarrow> pfold b st1)"
  by (induction a arbitrary: st) (auto split: option.splits)

lemma parseD: "parse s = Some p \<Longrightarrow> pfold s [Emp] = Some [p]"
  by (auto simp: parse_def split: option.splits list.splits)

lemma parse_append:
  assumes "parse a = Some p" "parse b = Some q"
  shows "parse (a @ b) = Some (join p q)"
proof -
  have "pfold b (lift p [] [Emp]) = Some (lift p [] [q])"
    by (rule pfold_lift[OF parseD[OF assms(2)]])
  then have "pfold b [p] = Some [join p q]" by (simp add: lift_single)
  then show ?thesis using parseD[OF assms(1)] by (simp add: parse_def pfold_append)
qed

lemma parse_loop:
  assumes "parse b = Some q"
  shows "parse (CHR ''['' # b @ '']'') = Some (SLoop Emp (join Emp q))"
proof -
  have "pfold b (lift Emp [Emp] [Emp]) = Some (lift Emp [Emp] [q])"
    by (rule pfold_lift[OF parseD[OF assms]])
  then have "pfold b [Emp, Emp] = Some [join Emp q, Emp]" by (simp add: lift_single)
  then show ?thesis by (simp add: parse_def pfold_append)
qed

inductive_cases exec_AddE: "exec ds ms (SAdd p d) t t'"

inductive_cases exec_MvE: "exec ds ms (SMv p d) t t'"

inductive_cases exec_OutE: "exec ds ms (SOut p) t t'"

inductive_cases exec_DbgE: "exec ds ms (SDbg p) t t'"

inductive_cases exec_LoopE: "exec ds ms (SLoop p b) t t'"

inductive_cases exec_EmpE: "exec ds ms Emp t t'"

lemma exec_padd:
  assumes "exec ds ms x t (mem, q, os)" "0 \<le> q" "q < ms" "q < int (length mem)" "ds \<noteq> 0"
  shows "exec ds ms (padd x d) t (mem[nat q := (mem ! nat q + d) mod ds], q, os)"
proof (cases "\<exists>y k. x = SAdd y k")
  case True
  then obtain y k where x: "x = SAdd y k" by auto
  from assms(1) obtain mem0 where e: "exec ds ms y t (mem0, q, os)"
    and m: "mem = mem0[nat q := (mem0 ! nat q + k) mod ds]"
    unfolding x by (auto elim: exec_AddE)
  have l: "nat q < length mem0" using assms(2,4) m by simp
  have "exec ds ms (SAdd y (k + d)) t (mem0[nat q := (mem0 ! nat q + (k + d)) mod ds], q, os)"
    using exec_Add[OF e assms(2,3) _ assms(5)] assms(4) m by simp
  moreover have "mem[nat q := (mem ! nat q + d) mod ds] = mem0[nat q := (mem0 ! nat q + (k + d)) mod ds]"
    using l by (simp add: m mod_add_left_eq add.assoc)
  ultimately show ?thesis by (simp add: x)
next
  case False
  then have "padd x d = SAdd x d" by (cases x) auto
  then show ?thesis using exec_Add[OF assms] by simp
qed

lemma exec_pmv:
  assumes "exec ds ms x t (mem, q, os)"
  shows "exec ds ms (pmv x d) t (mem, q + d, os)"
proof (cases "\<exists>y k. x = SMv y k")
  case True
  then obtain y k where x: "x = SMv y k" by auto
  from assms(1) obtain q0 where e: "exec ds ms y t (mem, q0, os)" and q: "q = q0 + k"
    unfolding x by (auto elim: exec_MvE)
  have "exec ds ms (SMv y (k + d)) t (mem, q0 + (k + d), os)" by (rule exec_Mv[OF e])
  then show ?thesis by (simp add: x q add.assoc)
next
  case False
  then have "pmv x d = SMv x d" by (cases x) auto
  then show ?thesis using exec_Mv[OF assms] by simp
qed

lemma exec_join:
  "exec ds ms q t1 t2 \<Longrightarrow> exec ds ms p t t1 \<Longrightarrow> exec ds ms (join p q) t t2"
proof (induction q arbitrary: t2)
  case Emp
  then show ?case by (auto elim: exec_EmpE)
next
  case (SAdd q d)
  from SAdd.prems(1) show ?case
    by (rule exec_AddE) (use SAdd in \<open>auto intro: exec_padd\<close>)
next
  case (SMv q d)
  from SMv.prems(1) show ?case
    by (rule exec_MvE) (use SMv in \<open>auto intro: exec_pmv\<close>)
next
  case (SOut q)
  from SOut.prems(1) show ?case
    by (rule exec_OutE) (use SOut in \<open>auto intro: exec_Out\<close>)
next
  case (SDbg q)
  from SDbg.prems(1) show ?case
    by (rule exec_DbgE) (use SDbg in \<open>auto intro: exec_Dbg\<close>)
next
  case (SLoop q b)
  from SLoop.prems(1) show ?case
    by (rule exec_LoopE) (use SLoop in \<open>auto intro: exec_Loop\<close>)
qed

lemma bsem_Nil: "bsem ds ms [] t t"
  by (simp add: bsem_def parse_def exec_Emp)

lemma bsem_append: "bsem ds ms a t t1 \<Longrightarrow> bsem ds ms b t1 t2 \<Longrightarrow> bsem ds ms (a @ b) t t2"
  unfolding bsem_def by (auto intro: exec_join simp: parse_append)

lemma bsem_Cons: "bsem ds ms [c] t t1 \<Longrightarrow> bsem ds ms cs t1 t2 \<Longrightarrow> bsem ds ms (c # cs) t t2"
  using bsem_append[of ds ms "[c]" t t1 cs t2] by simp

lemma bsem_add:
  assumes "c = CHR ''+'' \<and> d = 1 \<or> c = CHR ''-'' \<and> d = - 1"
    "0 \<le> q" "q < ms" "q < int (length mem)" "ds \<noteq> 0"
  shows "bsem ds ms [c] (mem, q, os) (mem[nat q := (mem ! nat q + d) mod ds], q, os)"
proof -
  have "parse [c] = Some (SAdd Emp d)" using assms(1) by (auto simp: parse_def)
  then show ?thesis unfolding bsem_def using exec_Add[OF exec_Emp assms(2-5)] by auto
qed

lemma bsem_move:
  assumes "c = CHR ''>'' \<and> d = 1 \<or> c = CHR ''<'' \<and> d = - 1"
  shows "bsem ds ms [c] (mem, q, os) (mem, q + d, os)"
proof -
  have "parse [c] = Some (SMv Emp d)" using assms(1) by (auto simp: parse_def)
  then show ?thesis unfolding bsem_def using exec_Mv[OF exec_Emp] by auto
qed

lemma bsem_out:
  assumes "0 \<le> q" "q < int (length mem)"
  shows "bsem ds ms ''.'' (mem, q, os) (mem, q, os @ [mem ! nat q])"
proof -
  have "parse ''.'' = Some (SOut Emp)" by (auto simp: parse_def)
  then show ?thesis unfolding bsem_def using exec_Out[OF exec_Emp assms] by auto
qed

lemma bsem_skip:
  assumes "c \<notin> set ''+-><.![]''"
  shows "bsem ds ms [c] t t"
proof -
  have "parse [c] = Some Emp" using assms by (auto simp: parse_def)
  then show ?thesis unfolding bsem_def using exec_Emp by auto
qed

lemma bsem_loop: "bloop ds ms b t t' \<Longrightarrow> bsem ds ms (CHR ''['' # b @ '']'') t t'"
  unfolding bloop_def bsem_def
  by (auto simp: parse_loop intro: exec_Loop[OF exec_Emp])

lemma bloop_exit:
  "bal b \<Longrightarrow> 0 \<le> q \<Longrightarrow> q < int (length mem) \<Longrightarrow> mem ! nat q = 0
     \<Longrightarrow> bloop ds ms b (mem, q, os) (mem, q, os)"
  unfolding bloop_def bal_def by (auto intro: loop_exit)

lemma bloop_iter:
  assumes "0 \<le> q" "q < int (length mem)" "mem ! nat q \<noteq> 0"
    "bsem ds ms b (mem, q, os) t1" "bloop ds ms b t1 t2"
  shows "bloop ds ms b (mem, q, os) t2"
proof -
  from assms(5) obtain p where p: "parse b = Some p" and l: "loop ds ms (join Emp p) t1 t2"
    by (auto simp: bloop_def)
  from assms(4) p have "exec ds ms p (mem, q, os) t1" by (auto simp: bsem_def)
  then have "exec ds ms (join Emp p) (mem, q, os) t1" by (rule exec_join) (rule exec_Emp)
  from loop_iter[OF assms(1-3) this l] show ?thesis using p by (auto simp: bloop_def)
qed

lemma bsem_bal: "bsem ds ms b t t' \<Longrightarrow> bal b"
  by (auto simp: bsem_def bal_def)

lemma bal_Nil: "bal []"
  by (simp add: bal_def parse_def)

lemma bal_append: "bal a \<Longrightarrow> bal b \<Longrightarrow> bal (a @ b)"
  by (auto simp: bal_def parse_append)

lemma bal_char: "c \<noteq> CHR ''['' \<Longrightarrow> c \<noteq> CHR '']'' \<Longrightarrow> bal [c]"
  by (auto simp: bal_def parse_def)

lemma bal_Cons: "c \<noteq> CHR ''['' \<Longrightarrow> c \<noteq> CHR '']'' \<Longrightarrow> bal cs \<Longrightarrow> bal (c # cs)"
  using bal_append[OF bal_char, of c cs] by simp

lemma bal_replicate: "c \<noteq> CHR ''['' \<Longrightarrow> c \<noteq> CHR '']'' \<Longrightarrow> bal (replicate n c)"
  by (induction n) (auto intro: bal_Nil bal_Cons)

lemma bal_loop: "bal b \<Longrightarrow> bal (CHR ''['' # b @ '']'')"
  by (auto simp: bal_def parse_loop)

section \<open>What the code-generation primitives do when run\<close>

lemma length_addc [simp]: "length (addc ds k v mem) = length mem"
  by (simp add: addc_def)

lemma nth_addc:
  "j < length mem \<Longrightarrow> addc ds k v mem ! j = (if j = k then (mem ! k + v) mod ds else mem ! j)"
  by (simp add: addc_def nth_list_update)

lemma bsem_rep_right: "bsem ds ms (replicate n CHR ''>'') (mem, q, os) (mem, q + int n, os)"
proof (induction n arbitrary: q)
  case 0
  then show ?case by (simp add: bsem_Nil)
next
  case (Suc n)
  have "bsem ds ms ''>'' (mem, q, os) (mem, q + 1, os)" by (rule bsem_move) simp
  from bsem_Cons[OF this Suc.IH[of "q + 1"]] show ?case by (simp add: add.assoc)
qed

lemma bsem_rep_left: "bsem ds ms (replicate n CHR ''<'') (mem, q, os) (mem, q - int n, os)"
proof (induction n arbitrary: q)
  case 0
  then show ?case by (simp add: bsem_Nil)
next
  case (Suc n)
  have "bsem ds ms ''<'' (mem, q, os) (mem, q + - 1, os)" by (rule bsem_move) simp
  from bsem_Cons[OF this Suc.IH[of "q + - 1"]] show ?case by (simp add: algebra_simps)
qed

lemma bsem_pm: "bsem ds ms (pm a b) (mem, int a, os) (mem, int b, os)"
proof (cases "b > a")
  case True
  then show ?thesis using bsem_rep_right[of ds ms "b - a" mem "int a" os] by (simp add: pm_def)
next
  case False
  then show ?thesis using bsem_rep_left[of ds ms "a - b" mem "int a" os] by (simp add: pm_def)
qed

lemma bal_pm: "bal (pm a b)"
  by (simp add: pm_def bal_replicate)

lemma bsem_inc:
  assumes "k < length mem" "int (length mem) \<le> ms" "ds \<noteq> 0"
  shows "bsem ds ms ''+'' (mem, int k, os) (addc ds k 1 mem, int k, os)"
  using bsem_add[of "CHR ''+''" 1 "int k" ms mem ds os] assms by (simp add: addc_def)

lemma bsem_dec:
  assumes "k < length mem" "int (length mem) \<le> ms" "ds \<noteq> 0"
  shows "bsem ds ms ''-'' (mem, int k, os) (addc ds k (- 1) mem, int k, os)"
  using bsem_add[of "CHR ''-''" "- 1" "int k" ms mem ds os] assms by (simp add: addc_def)

lemma bsem_mv_body:
  assumes "a < length mem" "b < length mem" "int (length mem) \<le> ms" "ds \<noteq> 0"
  shows "bsem ds ms (mv_body a b) (mem, int a, os) (addc ds b 1 (addc ds a (- 1) mem), int a, os)"
proof -
  let ?m1 = "addc ds a (- 1) mem"
  have 1: "bsem ds ms ''-'' (mem, int a, os) (?m1, int a, os)"
    by (rule bsem_dec) (use assms in auto)
  have 2: "bsem ds ms (pm a b) (?m1, int a, os) (?m1, int b, os)" by (rule bsem_pm)
  have 3: "bsem ds ms ''+'' (?m1, int b, os) (addc ds b 1 ?m1, int b, os)"
    by (rule bsem_inc) (use assms in auto)
  have 4: "bsem ds ms (pm b a) (addc ds b 1 ?m1, int b, os) (addc ds b 1 ?m1, int a, os)"
    by (rule bsem_pm)
  show ?thesis unfolding mv_body_def
    by (rule bsem_Cons[OF 1 bsem_append[OF 2 bsem_Cons[OF 3 4]]])
qed

lemma bal_mv_body: "bal (mv_body a b)"
  unfolding mv_body_def by (intro bal_Cons bal_append bal_pm) auto

lemma bloop_mv:
  assumes "a \<noteq> b" "a < length mem" "b < length mem" "int (length mem) \<le> ms" "0 < ds"
    "mem ! a = int v" "int v < ds" "0 \<le> mem ! b" "mem ! b < ds"
  shows "bloop ds ms (mv_body a b) (mem, int a, os) ((addc ds b (int v) mem)[a := 0], int a, os)"
  using assms
proof (induction v arbitrary: mem)
  case 0
  then have "(addc ds b (int 0) mem)[a := 0] = mem"
    by (auto simp: list_eq_iff_nth_eq nth_list_update addc_def)
  moreover have "bloop ds ms (mv_body a b) (mem, int a, os) (mem, int a, os)"
    by (rule bloop_exit) (use 0 in \<open>auto simp: bal_mv_body\<close>)
  ultimately show ?case by simp
next
  case (Suc v)
  let ?m1 = "addc ds b 1 (addc ds a (- 1) mem)"
  have b1: "bsem ds ms (mv_body a b) (mem, int a, os) (?m1, int a, os)"
    by (rule bsem_mv_body) (use Suc.prems in auto)
  have va: "?m1 ! a = int v" using Suc.prems by (simp add: nth_addc)
  have vb: "0 \<le> ?m1 ! b" "?m1 ! b < ds" using Suc.prems by (simp_all add: nth_addc)
  have ih: "bloop ds ms (mv_body a b) (?m1, int a, os) ((addc ds b (int v) ?m1)[a := 0], int a, os)"
    by (rule Suc.IH) (use Suc.prems va vb in auto)
  have eq: "(addc ds b (int v) ?m1)[a := 0] = (addc ds b (int (Suc v)) mem)[a := 0]"
    using Suc.prems
    by (auto simp: list_eq_iff_nth_eq nth_list_update nth_addc mod_simps; simp add: algebra_simps)
  have "bloop ds ms (mv_body a b) (mem, int a, os) ((addc ds b (int v) ?m1)[a := 0], int a, os)"
    by (rule bloop_iter[OF _ _ _ b1 ih]) (use Suc.prems in auto)
  then show ?case by (simp only: eq)
qed

lemma bsem_mv:
  assumes "a \<noteq> b" "a < length mem" "b < length mem" "int (length mem) \<le> ms" "0 < ds"
    "0 \<le> mem ! a" "mem ! a < ds" "0 \<le> mem ! b" "mem ! b < ds"
  shows "bsem ds ms (mv_code a b) (mem, int a, os) ((addc ds b (mem ! a) mem)[a := 0], int a, os)"
proof -
  obtain v where v: "mem ! a = int v" using assms(6) by (metis nonneg_int_cases)
  from bloop_mv[OF assms(1-5) v _ assms(8,9)] assms(7) v show ?thesis
    unfolding mv_code_def by (auto intro: bsem_loop)
qed

lemma bsem_fan_body:
  assumes "x < length mem" "y < length mem" "z < length mem" "int (length mem) \<le> ms" "ds \<noteq> 0"
  shows "bsem ds ms (fan_body x y z) (mem, int x, os)
           (addc ds z 1 (addc ds y 1 (addc ds x (- 1) mem)), int x, os)"
proof -
  let ?m1 = "addc ds x (- 1) mem"
  let ?m2 = "addc ds y 1 ?m1"
  let ?m3 = "addc ds z 1 ?m2"
  have 1: "bsem ds ms ''-'' (mem, int x, os) (?m1, int x, os)"
    by (rule bsem_dec) (use assms in auto)
  have 2: "bsem ds ms (pm x y) (?m1, int x, os) (?m1, int y, os)" by (rule bsem_pm)
  have 3: "bsem ds ms ''+'' (?m1, int y, os) (?m2, int y, os)"
    by (rule bsem_inc) (use assms in auto)
  have 4: "bsem ds ms (pm y z) (?m2, int y, os) (?m2, int z, os)" by (rule bsem_pm)
  have 5: "bsem ds ms ''+'' (?m2, int z, os) (?m3, int z, os)"
    by (rule bsem_inc) (use assms in auto)
  have 6: "bsem ds ms (pm z x) (?m3, int z, os) (?m3, int x, os)" by (rule bsem_pm)
  show ?thesis unfolding fan_body_def
    by (rule bsem_Cons[OF 1 bsem_append[OF 2 bsem_Cons[OF 3 bsem_append[OF 4 bsem_Cons[OF 5 6]]]]])
qed

lemma bal_fan_body: "bal (fan_body x y z)"
  unfolding fan_body_def by (intro bal_Cons bal_append bal_pm) auto

lemma bloop_fan:
  assumes "x \<noteq> y" "x \<noteq> z" "x < length mem" "y < length mem" "z < length mem"
    "int (length mem) \<le> ms" "0 < ds" "mem ! x = int v" "int v < ds"
    "0 \<le> mem ! y" "mem ! y < ds" "0 \<le> mem ! z" "mem ! z < ds"
  shows "bloop ds ms (fan_body x y z) (mem, int x, os)
           ((addc ds z (int v) (addc ds y (int v) mem))[x := 0], int x, os)"
  using assms
proof (induction v arbitrary: mem)
  case 0
  then have "(addc ds z (int 0) (addc ds y (int 0) mem))[x := 0] = mem"
    by (auto simp: list_eq_iff_nth_eq nth_list_update nth_addc)
  moreover have "bloop ds ms (fan_body x y z) (mem, int x, os) (mem, int x, os)"
    by (rule bloop_exit) (use 0 in \<open>auto simp: bal_fan_body\<close>)
  ultimately show ?case by simp
next
  case (Suc v)
  let ?m1 = "addc ds z 1 (addc ds y 1 (addc ds x (- 1) mem))"
  have b1: "bsem ds ms (fan_body x y z) (mem, int x, os) (?m1, int x, os)"
    by (rule bsem_fan_body) (use Suc.prems in auto)
  have vx: "?m1 ! x = int v" using Suc.prems by (simp add: nth_addc)
  have vy: "0 \<le> ?m1 ! y" "?m1 ! y < ds" using Suc.prems by (simp_all add: nth_addc)
  have vz: "0 \<le> ?m1 ! z" "?m1 ! z < ds" using Suc.prems by (simp_all add: nth_addc)
  have ih: "bloop ds ms (fan_body x y z) (?m1, int x, os)
      ((addc ds z (int v) (addc ds y (int v) ?m1))[x := 0], int x, os)"
    by (rule Suc.IH) (use Suc.prems vx vy vz in auto)
  have eq: "(addc ds z (int v) (addc ds y (int v) ?m1))[x := 0]
      = (addc ds z (int (Suc v)) (addc ds y (int (Suc v)) mem))[x := 0]"
    using Suc.prems
    by (auto simp: list_eq_iff_nth_eq nth_list_update nth_addc mod_simps; simp add: algebra_simps)
  have "bloop ds ms (fan_body x y z) (mem, int x, os)
      ((addc ds z (int v) (addc ds y (int v) ?m1))[x := 0], int x, os)"
    by (rule bloop_iter[OF _ _ _ b1 ih]) (use Suc.prems in auto)
  then show ?case by (simp only: eq)
qed

lemma bsem_cp:
  assumes "s \<noteq> d" "s \<noteq> t" "d \<noteq> t" "s < length mem" "d < length mem" "t < length mem"
    "int (length mem) \<le> ms" "0 < ds" "0 \<le> mem ! s" "mem ! s < ds"
    "0 \<le> mem ! d" "mem ! d < ds" "mem ! t = 0"
  shows "bsem ds ms (cp_code s d t) (mem, int s, os) (addc ds d (mem ! s) mem, int s, os)"
proof -
  obtain v where v: "mem ! s = int v" using assms(9) by (metis nonneg_int_cases)
  let ?m1 = "(addc ds t (int v) (addc ds d (int v) mem))[s := 0]"
  have "bloop ds ms (fan_body s d t) (mem, int s, os) (?m1, int s, os)"
    by (rule bloop_fan) (use assms v in auto)
  then have 1: "bsem ds ms (CHR ''['' # fan_body s d t @ '']'') (mem, int s, os) (?m1, int s, os)"
    by (rule bsem_loop)
  have 2: "bsem ds ms (pm s t) (?m1, int s, os) (?m1, int t, os)" by (rule bsem_pm)
  have t1: "?m1 ! t = int v" using assms v by (simp add: nth_addc)
  have s1: "?m1 ! s = 0" using assms by simp
  have 3: "bsem ds ms (mv_code t s) (?m1, int t, os) ((addc ds s (?m1 ! t) ?m1)[t := 0], int t, os)"
    by (rule bsem_mv) (use assms v t1 s1 in auto)
  have 4: "bsem ds ms (pm t s) ((addc ds s (?m1 ! t) ?m1)[t := 0], int t, os)
      ((addc ds s (?m1 ! t) ?m1)[t := 0], int s, os)" by (rule bsem_pm)
  have eq: "(addc ds s (?m1 ! t) ?m1)[t := 0] = addc ds d (mem ! s) mem"
    using assms v
    by (auto simp: list_eq_iff_nth_eq nth_list_update nth_addc)
  show ?thesis unfolding cp_code_def
    using bsem_append[OF 1 bsem_append[OF 2 bsem_append[OF 3 4]]] by (simp only: eq)
qed

lemma bsem_L1: "bsem ds ms ''<'' (mem, q, os) (mem, q - 1, os)"
  using bsem_move[of "CHR ''<''" "- 1" ds ms mem q os] by simp

lemma bsem_R1: "bsem ds ms ''>'' (mem, q, os) (mem, q + 1, os)"
  using bsem_move[of "CHR ''>''" 1 ds ms mem q os] by simp

lemma bsem_L2: "bsem ds ms ''<<'' (mem, q, os) (mem, q - 2, os)"
  using bsem_Cons[OF bsem_L1 bsem_L1, of ds ms mem q os] by simp

lemma bsem_R2: "bsem ds ms ''>>'' (mem, q, os) (mem, q + 2, os)"
  using bsem_Cons[OF bsem_R1 bsem_R1, of ds ms mem q os] by (simp add: add.commute)

lemma bsem_clear:
  assumes "k < length mem" "int (length mem) \<le> ms" "0 < ds" "mem ! k = int v" "int v < ds"
  shows "bloop ds ms ''-'' (mem, int k, os) (mem[k := 0], int k, os)"
  using assms
proof (induction v arbitrary: mem)
  case 0
  then have "mem[k := 0] = mem" by (simp add: list_update_same_conv)
  moreover have "bloop ds ms ''-'' (mem, int k, os) (mem, int k, os)"
    by (rule bloop_exit) (use 0 in \<open>auto simp: bal_char\<close>)
  ultimately show ?case by simp
next
  case (Suc v)
  let ?m1 = "addc ds k (- 1) mem"
  have b1: "bsem ds ms ''-'' (mem, int k, os) (?m1, int k, os)"
    by (rule bsem_dec) (use Suc.prems in auto)
  have "?m1 ! k = int v" using Suc.prems by (simp add: nth_addc)
  then have ih: "bloop ds ms ''-'' (?m1, int k, os) (?m1[k := 0], int k, os)"
    by (intro Suc.IH) (use Suc.prems in auto)
  have "bloop ds ms ''-'' (mem, int k, os) (?m1[k := 0], int k, os)"
    by (rule bloop_iter[OF _ _ _ b1 ih]) (use Suc.prems in auto)
  then show ?case by (simp add: addc_def)
qed

lemma bsem_clr:
  assumes "k < length mem" "int (length mem) \<le> ms" "0 < ds" "0 \<le> mem ! k" "mem ! k < ds"
  shows "bsem ds ms ''[-]'' (mem, int k, os) (mem[k := 0], int k, os)"
proof -
  obtain v where v: "mem ! k = int v" using assms(4) by (metis nonneg_int_cases)
  from bsem_loop[OF bsem_clear[OF assms(1-3) v]] assms(5) v show ?thesis by simp
qed

lemma bloop_up:
  assumes "k < length mem" "int (length mem) \<le> ms" "0 \<le> mem ! k" "mem ! k < ds"
    "nat (ds - mem ! k) = n"
  shows "bloop ds ms ''+'' (mem, int k, os) (mem[k := 0], int k, os)"
  using assms
proof (induction n arbitrary: mem)
  case 0
  then show ?case by simp
next
  case (Suc n)
  show ?case
  proof (cases "mem ! k = 0")
    case True
    then have "mem[k := 0] = mem" using Suc.prems by (simp add: list_update_same_conv)
    moreover have "bloop ds ms ''+'' (mem, int k, os) (mem, int k, os)"
      by (rule bloop_exit) (use Suc.prems True in \<open>auto simp: bal_char\<close>)
    ultimately show ?thesis by simp
  next
    case False
    let ?m1 = "addc ds k 1 mem"
    have b1: "bsem ds ms ''+'' (mem, int k, os) (?m1, int k, os)"
      by (rule bsem_inc) (use Suc.prems in auto)
    have l: "bloop ds ms ''+'' (?m1, int k, os) (?m1[k := 0], int k, os)"
    proof (cases "mem ! k + 1 = ds")
      case True
      then have z: "?m1 ! k = 0" using Suc.prems by (simp add: nth_addc)
      then have "?m1[k := 0] = ?m1" using Suc.prems by (simp add: list_update_same_conv)
      moreover have "bloop ds ms ''+'' (?m1, int k, os) (?m1, int k, os)"
        by (rule bloop_exit) (use Suc.prems z in \<open>auto simp: bal_char\<close>)
      ultimately show ?thesis by simp
    next
      case False
      then have v: "?m1 ! k = mem ! k + 1" using Suc.prems by (simp add: nth_addc)
      show ?thesis by (rule Suc.IH) (use Suc.prems v False in auto)
    qed
    have "bloop ds ms ''+'' (mem, int k, os) (?m1[k := 0], int k, os)"
      by (rule bloop_iter[OF _ _ _ b1 l]) (use Suc.prems False in auto)
    then show ?thesis by (simp add: addc_def)
  qed
qed

lemma bsem_up:
  assumes "k < length mem" "int (length mem) \<le> ms" "0 \<le> mem ! k" "mem ! k < ds"
  shows "bsem ds ms ''[+]'' (mem, int k, os) (mem[k := 0], int k, os)"
  using bsem_loop[OF bloop_up[OF assms refl]] by simp

lemma bsem_gt_body:
  assumes "8 \<le> length mem" "int (length mem) \<le> ms" "0 < ds" "mem ! 4 = 0" "mem ! 6 = 0"
  shows "bsem ds ms gt_body (mem, 7, os) (gt_step ds mem, 7, os)"
proof -
  let ?m1 = "addc ds 7 (- 1) mem"
  have l: "7 < length mem" "5 < length mem" "3 < length mem" "4 < length mem" "6 < length mem"
    using assms(1) by auto
  have 1: "bsem ds ms ''-'' (mem, 7, os) (?m1, 7, os)"
    using bsem_dec[OF l(1) assms(2), of ds os] assms(3) by simp
  have 2: "bsem ds ms ''<<'' (?m1, 7, os) (?m1, 5, os)"
    using bsem_L2[of ds ms ?m1 7 os] by simp
  let ?m2 = "if mem ! 5 \<noteq> 0 then addc ds 3 (- 1) ?m1 else ?m1"
  let ?q2 = "if mem ! 5 \<noteq> 0 then 4 else (5::int)"
  have m15: "?m1 ! 5 = mem ! 5" using l by (simp add: nth_addc)
  have m14: "?m1 ! 4 = 0" "?m1 ! 6 = 0" using l assms by (simp_all add: nth_addc)
  have 3: "bsem ds ms ''[<<->]'' (?m1, 5, os) (?m2, ?q2, os)"
  proof (cases "mem ! 5 \<noteq> 0")
    case True
    have a: "bsem ds ms ''<<'' (?m1, 5, os) (?m1, 3, os)" using bsem_L2[of ds ms ?m1 5 os] by simp
    have b: "bsem ds ms ''-'' (?m1, 3, os) (addc ds 3 (- 1) ?m1, 3, os)"
      using bsem_dec[of 3 ?m1 ms ds os] l assms by simp
    have c: "bsem ds ms ''>'' (addc ds 3 (- 1) ?m1, 3, os) (addc ds 3 (- 1) ?m1, 4, os)"
      using bsem_R1[of ds ms _ 3 os] by simp
    have body: "bsem ds ms ''<<->'' (?m1, 5, os) (addc ds 3 (- 1) ?m1, 4, os)"
      using bsem_append[OF a bsem_append[OF b c]] by simp
    have ex: "bloop ds ms ''<<->'' (addc ds 3 (- 1) ?m1, 4, os) (addc ds 3 (- 1) ?m1, 4, os)"
      by (rule bloop_exit) (use l m14 in \<open>auto simp: bal_def parse_def nth_addc\<close>)
    have "bloop ds ms ''<<->'' (?m1, 5, os) (addc ds 3 (- 1) ?m1, 4, os)"
      by (rule bloop_iter[OF _ _ _ body ex]) (use l m15 True in auto)
    from bsem_loop[OF this] True show ?thesis by simp
  next
    case False
    have "bloop ds ms ''<<->'' (?m1, 5, os) (?m1, 5, os)"
      by (rule bloop_exit) (use l m15 False in \<open>auto simp: bal_def parse_def\<close>)
    from bsem_loop[OF this] False show ?thesis by simp
  qed
  have 4: "bsem ds ms ''>'' (?m2, ?q2, os) (?m2, ?q2 + 1, os)" by (rule bsem_R1)
  have m26: "?m2 ! 6 = 0" using l m14 by (simp add: nth_addc)
  have 5: "bsem ds ms ''[>]'' (?m2, ?q2 + 1, os) (?m2, 6, os)"
  proof (cases "mem ! 5 \<noteq> 0")
    case True
    have m25: "?m2 ! 5 \<noteq> 0" using True l by (simp add: nth_addc)
    have body: "bsem ds ms ''>'' (?m2, 5, os) (?m2, 6, os)" using bsem_R1[of ds ms ?m2 5 os] by simp
    have ex: "bloop ds ms ''>'' (?m2, 6, os) (?m2, 6, os)"
      by (rule bloop_exit) (use l m26 in \<open>auto simp: bal_char\<close>)
    have "bloop ds ms ''>'' (?m2, 5, os) (?m2, 6, os)"
      by (rule bloop_iter[OF _ _ _ body ex]) (use l m25 in auto)
    from bsem_loop[OF this] True show ?thesis by simp
  next
    case False
    have "bloop ds ms ''>'' (?m2, 6, os) (?m2, 6, os)"
      by (rule bloop_exit) (use l m26 in \<open>auto simp: bal_char\<close>)
    from bsem_loop[OF this] False show ?thesis by simp
  qed
  have 6: "bsem ds ms ''<'' (?m2, 6, os) (?m2, 5, os)" using bsem_L1[of ds ms ?m2 6 os] by simp
  have 7: "bsem ds ms ''-'' (?m2, 5, os) (addc ds 5 (- 1) ?m2, 5, os)"
    using bsem_dec[of 5 ?m2 ms ds os] l assms by simp
  have 8: "bsem ds ms ''>>'' (addc ds 5 (- 1) ?m2, 5, os) (addc ds 5 (- 1) ?m2, 7, os)"
    using bsem_R2[of ds ms _ 5 os] by simp
  have eq: "addc ds 5 (- 1) ?m2 = gt_step ds mem" by (simp add: gt_step_def)
  have "bsem ds ms (''-'' @ ''<<'' @ ''[<<->]'' @ ''>'' @ ''[>]'' @ ''<'' @ ''-'' @ ''>>'')
      (mem, 7, os) (addc ds 5 (- 1) ?m2, 7, os)"
    by (intro bsem_append[OF 1] bsem_append[OF 2] bsem_append[OF 3] bsem_append[OF 4]
        bsem_append[OF 5] bsem_append[OF 6] bsem_append[OF 7] 8)
  then show ?thesis unfolding eq by (simp add: gt_body_def)
qed

lemma gt_step_nth:
  assumes "8 \<le> length mem"
  shows "gt_step ds mem ! 7 = (mem ! 7 - 1) mod ds"
    "gt_step ds mem ! 5 = (mem ! 5 - 1) mod ds"
    "gt_step ds mem ! 3 = (if mem ! 5 \<noteq> 0 then (mem ! 3 - 1) mod ds else mem ! 3)"
    "gt_step ds mem ! 4 = mem ! 4" "gt_step ds mem ! 6 = mem ! 6"
    "length (gt_step ds mem) = length mem"
  using assms by (auto simp: gt_step_def nth_addc)

lemma gt_step_other:
  "j < length mem \<Longrightarrow> j \<noteq> 3 \<Longrightarrow> j \<noteq> 5 \<Longrightarrow> j \<noteq> 7 \<Longrightarrow> gt_step ds mem ! j = mem ! j"
  by (auto simp: gt_step_def nth_addc)

lemma bloop_gt:
  assumes "8 \<le> length mem" "int (length mem) \<le> ms" "0 < ds" "mem ! 4 = 0" "mem ! 6 = 0"
    "mem ! 7 = int n" "int n < ds"
  shows "bloop ds ms gt_body (mem, 7, os)
           (mem[7 := 0, 5 := fst (gtl ds n (mem ! 5) (mem ! 3)),
                3 := snd (gtl ds n (mem ! 5) (mem ! 3))], 7, os)"
  using assms
proof (induction n arbitrary: mem)
  case 0
  then have "mem[7 := 0, 5 := fst (gtl ds 0 (mem ! 5) (mem ! 3)),
      3 := snd (gtl ds 0 (mem ! 5) (mem ! 3))] = mem"
    by (auto simp: list_eq_iff_nth_eq nth_list_update)
  moreover have "bloop ds ms gt_body (mem, 7, os) (mem, 7, os)"
    by (rule bloop_exit) (use 0 in \<open>auto simp: bal_def parse_def gt_body_def\<close>)
  ultimately show ?case by simp
next
  case (Suc n)
  let ?m1 = "gt_step ds mem"
  note nth = gt_step_nth[OF Suc.prems(1), of ds]
  have b1: "bsem ds ms gt_body (mem, 7, os) (?m1, 7, os)"
    by (rule bsem_gt_body) (use Suc.prems in auto)
  have n7: "?m1 ! 7 = int n" using Suc.prems by (simp add: nth)
  have ih: "bloop ds ms gt_body (?m1, 7, os)
      (?m1[7 := 0, 5 := fst (gtl ds n (?m1 ! 5) (?m1 ! 3)),
           3 := snd (gtl ds n (?m1 ! 5) (?m1 ! 3))], 7, os)"
    by (rule Suc.IH) (use Suc.prems n7 nth in auto)
  have eq: "?m1[7 := 0, 5 := fst (gtl ds n (?m1 ! 5) (?m1 ! 3)),
           3 := snd (gtl ds n (?m1 ! 5) (?m1 ! 3))]
      = mem[7 := 0, 5 := fst (gtl ds (Suc n) (mem ! 5) (mem ! 3)),
            3 := snd (gtl ds (Suc n) (mem ! 5) (mem ! 3))]"
    using Suc.prems(1)
    by (auto simp: list_eq_iff_nth_eq nth_list_update nth gt_step_other)
  have "bloop ds ms gt_body (mem, 7, os)
      (?m1[7 := 0, 5 := fst (gtl ds n (?m1 ! 5) (?m1 ! 3)),
           3 := snd (gtl ds n (?m1 ! 5) (?m1 ! 3))], 7, os)"
    by (rule bloop_iter[OF _ _ _ b1 ih]) (use Suc.prems in auto)
  then show ?case by (simp only: eq)
qed

lemma gtl_ge:
  "int n \<le> c \<Longrightarrow> c < ds \<Longrightarrow> gtl ds n c r = (c - int n, (r - int n) mod ds) \<or> n = 0 \<and> gtl ds n c r = (c, r)"
proof (induction n arbitrary: c r)
  case 0
  then show ?case by simp
next
  case (Suc n)
  then have c: "c \<noteq> 0" "(c - 1) mod ds = c - 1" by auto
  from Suc.IH[of "c - 1" "(r - 1) mod ds"] Suc.prems
  show ?case by (auto simp: c mod_simps algebra_simps)
qed

lemma gtl_ge_snd:
  "int n \<le> c \<Longrightarrow> c < ds \<Longrightarrow> 0 \<le> r \<Longrightarrow> r < ds \<Longrightarrow> snd (gtl ds n c r) = (r - int n) mod ds"
  using gtl_ge[of n c ds r] by auto

lemma gtl_lt_snd:
  "c < int n \<Longrightarrow> 0 \<le> c \<Longrightarrow> int n \<le> ds \<Longrightarrow> 0 \<le> r \<Longrightarrow> r < ds
     \<Longrightarrow> snd (gtl ds n c r) = (r - int n + 1) mod ds"
proof (induction n arbitrary: c r)
  case 0
  then show ?case by simp
next
  case (Suc n)
  show ?case
  proof (cases "c = 0")
    case True
    have m: "(- 1) mod ds = ds - 1" using Suc.prems by (simp add: zmod_minus1)
    have g: "gtl ds (Suc n) c r = gtl ds n (ds - 1) r" using True m by simp
    have "snd (gtl ds n (ds - 1) r) = (r - int n) mod ds"
      by (rule gtl_ge_snd) (use Suc.prems in auto)
    then show ?thesis unfolding g by (simp add: algebra_simps)
  next
    case False
    then have c1: "(c - 1) mod ds = c - 1" using Suc.prems by auto
    have g: "gtl ds (Suc n) c r = gtl ds n (c - 1) ((r - 1) mod ds)" using False c1 by simp
    have ih: "snd (gtl ds n (c - 1) ((r - 1) mod ds)) = ((r - 1) mod ds - int n + 1) mod ds"
      by (rule Suc.IH) (use Suc.prems False in auto)
    have "((r - 1) mod ds - int n + 1) mod ds = ((r - 1) mod ds + (1 - int n)) mod ds"
      by (simp add: algebra_simps)
    also have "\<dots> = ((r - 1) + (1 - int n)) mod ds" by (rule mod_add_left_eq)
    also have "\<dots> = (r - int (Suc n) + 1) mod ds" by (simp add: algebra_simps)
    finally have ar: "((r - 1) mod ds - int n + 1) mod ds = (r - int (Suc n) + 1) mod ds" .
    show ?thesis unfolding g ih ar ..
  qed
qed

lemma gtl_result:
  assumes "0 \<le> va" "va < ds" "0 \<le> vb" "vb < ds"
  shows "snd (gtl ds (nat va) vb va) = (if va > vb then 1 else 0)"
proof (cases "va > vb")
  case True
  then have "snd (gtl ds (nat va) vb va) = (va - int (nat va) + 1) mod ds"
    by (intro gtl_lt_snd) (use assms in auto)
  then show ?thesis using True assms by simp
next
  case False
  then have "snd (gtl ds (nat va) vb va) = (va - int (nat va)) mod ds"
    by (intro gtl_ge_snd) (use assms in auto)
  then show ?thesis using False assms by simp
qed

lemma gtl_fst_range: "0 < ds \<Longrightarrow> 0 \<le> c \<Longrightarrow> c < ds \<Longrightarrow> 0 \<le> fst (gtl ds n c r) \<and> fst (gtl ds n c r) < ds"
  by (induction n arbitrary: c r) auto

lemma bsem_gt_code:
  assumes "8 \<le> length mem" "int (length mem) \<le> ms" "mem ! 4 = 0" "mem ! 6 = 0"
    "mem ! 7 = va" "mem ! 3 = va" "mem ! 5 = vb" "0 \<le> va" "va < ds" "0 \<le> vb" "vb < ds"
  shows "bsem ds ms gt_code (mem, 7, os)
           (mem[7 := 0, 5 := 0, 3 := (if va > vb then 1 else 0)], 3, os)"
proof -
  have ds: "0 < ds" using assms by auto
  let ?g = "gtl ds (nat va) vb va"
  let ?m1 = "mem[7 := 0, 5 := fst ?g, 3 := snd ?g]"
  have "bloop ds ms gt_body (mem, 7, os)
      (mem[7 := 0, 5 := fst (gtl ds (nat va) (mem ! 5) (mem ! 3)),
           3 := snd (gtl ds (nat va) (mem ! 5) (mem ! 3))], 7, os)"
    by (rule bloop_gt) (use assms ds in auto)
  then have 1: "bsem ds ms (CHR ''['' # gt_body @ '']'') (mem, 7, os) (?m1, 7, os)"
    using assms by (auto intro: bsem_loop)
  have 2: "bsem ds ms ''<<'' (?m1, 7, os) (?m1, 5, os)" using bsem_L2[of ds ms ?m1 7 os] by simp
  have r5: "0 \<le> ?m1 ! 5" "?m1 ! 5 < ds"
    using assms gtl_fst_range[OF ds assms(10,11), of "nat va" va] by (auto simp: nth_list_update)
  have 3: "bsem ds ms ''[+]'' (?m1, 5, os) (?m1[5 := 0], 5, os)"
    using bsem_up[of 5 ?m1 ms ds os] assms r5 by simp
  have 4: "bsem ds ms ''<<'' (?m1[5 := 0], 5, os) (?m1[5 := 0], 3, os)"
    using bsem_L2[of ds ms _ 5 os] by simp
  have eq: "?m1[5 := 0] = mem[7 := 0, 5 := 0, 3 := (if va > vb then 1 else 0)]"
    using gtl_result[OF assms(8-11)] assms(1)
    by (auto simp: list_eq_iff_nth_eq nth_list_update)
  have "bsem ds ms ((CHR ''['' # gt_body @ '']'') @ ''<<'' @ ''[+]'' @ ''<<'') (mem, 7, os)
      (?m1[5 := 0], 3, os)"
    by (intro bsem_append[OF 1] bsem_append[OF 2] bsem_append[OF 3] 4)
  then show ?thesis unfolding eq by (simp add: gt_code_def gt_body_def)
qed

lemma bsem_gt_setup:
  assumes "8 \<le> a" "a < length mem" "8 \<le> b" "b < length mem" "int (length mem) \<le> ms"
    "mem ! 3 = 0" "mem ! 4 = 0" "mem ! 5 = 0" "mem ! 6 = 0" "mem ! 7 = 0"
    "0 \<le> mem ! a" "mem ! a < ds" "0 \<le> mem ! b" "mem ! b < ds"
  shows "bsem ds ms (gt_setup_code a b) (mem, int a, os)
           (mem[7 := mem ! a, 5 := mem ! b, 3 := mem ! a], 7, os)"
proof -
  have ds: "0 < ds" using assms by auto
  let ?m1 = "addc ds 7 (mem ! a) mem"
  let ?m2 = "addc ds 5 (?m1 ! b) ?m1"
  let ?m3 = "addc ds 3 (?m2 ! 7) ?m2"
  have 1: "bsem ds ms (cp_code a 7 6) (mem, int a, os) (?m1, int a, os)"
    by (rule bsem_cp) (use assms ds in auto)
  have 2: "bsem ds ms (pm a b) (?m1, int a, os) (?m1, int b, os)" by (rule bsem_pm)
  have 3: "bsem ds ms (cp_code b 5 6) (?m1, int b, os) (?m2, int b, os)"
    by (rule bsem_cp) (use assms ds in \<open>auto simp: nth_addc\<close>)
  have 4: "bsem ds ms (pm b 7) (?m2, int b, os) (?m2, int 7, os)" by (rule bsem_pm)
  have 5: "bsem ds ms (cp_code 7 3 4) (?m2, int 7, os) (?m3, int 7, os)"
    by (rule bsem_cp) (use assms ds in \<open>auto simp: nth_addc\<close>)
  have eq: "?m3 = mem[7 := mem ! a, 5 := mem ! b, 3 := mem ! a]"
    using assms by (auto simp: list_eq_iff_nth_eq nth_list_update nth_addc)
  have "bsem ds ms (gt_setup_code a b) (mem, int a, os) (?m3, int 7, os)"
    unfolding gt_setup_code_def
    by (intro bsem_append[OF 1] bsem_append[OF 2] bsem_append[OF 3] bsem_append[OF 4] 5)
  then show ?thesis unfolding eq by simp
qed

lemma bsem_gt_full:
  assumes "8 \<le> a" "a < length mem" "8 \<le> b" "b < length mem" "int (length mem) \<le> ms"
    "mem ! 3 = 0" "mem ! 4 = 0" "mem ! 5 = 0" "mem ! 6 = 0" "mem ! 7 = 0"
    "0 \<le> mem ! a" "mem ! a < ds" "0 \<le> mem ! b" "mem ! b < ds"
  shows "bsem ds ms (gt_setup_code a b @ gt_code) (mem, int a, os)
           (mem[3 := (if mem ! a > mem ! b then 1 else 0)], 3, os)"
proof -
  let ?m1 = "mem[7 := mem ! a, 5 := mem ! b, 3 := mem ! a]"
  have 1: "bsem ds ms (gt_setup_code a b) (mem, int a, os) (?m1, 7, os)"
    by (rule bsem_gt_setup[OF assms])
  have 2: "bsem ds ms gt_code (?m1, 7, os)
      (?m1[7 := 0, 5 := 0, 3 := (if mem ! a > mem ! b then 1 else 0)], 3, os)"
    by (rule bsem_gt_code[where va = "mem ! a" and vb = "mem ! b"])
      (use assms in \<open>auto simp: nth_list_update\<close>)
  have eq: "?m1[7 := 0, 5 := 0, 3 := (if mem ! a > mem ! b then 1 else 0)]
      = mem[3 := (if mem ! a > mem ! b then 1 else 0)]"
    using assms by (auto simp: list_eq_iff_nth_eq nth_list_update)
  show ?thesis using bsem_append[OF 1 2] unfolding eq .
qed

lemma bsem_runs:
  "bsem ds (int (length mem)) code (mem, int k, []) (mem', int k', os') \<Longrightarrow> runs code ds mem k mem' k'"
  unfolding runs_def machine_at_def using bsem_run[of ds "int (length mem)" code mem "int k" "[]" mem' "int k'" os']
  by blast

lemma list_index_nth: "r \<in> set xs \<Longrightarrow> xs ! list_index xs r = r \<and> list_index xs r < length xs"
  by (induction xs) auto

lemma address_ofD:
  assumes "address_of r = Inr k"
  shows "k < 15" "Registers ! k = r"
  using assms list_index_nth[of r Registers]
  by (auto simp: address_of_def check_reg_def bindE_def split: if_splits)
    (simp add: Registers_def IRegisters_def URegisters_def)

lemma address_of_inj: "address_of r = Inr k \<Longrightarrow> address_of r' = Inr k \<Longrightarrow> r = r'"
  using address_ofD(2) by metis

lemma ureg_address:
  assumes "r \<in> set URegisters" "address_of r = Inr k"
  shows "8 \<le> k" "k < 15"
  using assms by (auto simp: reg_simps)

lemma ureg_address_ex: "r \<in> set URegisters \<Longrightarrow> \<exists>k. address_of r = Inr k"
  by (auto simp: reg_simps)

lemma scratch_address:
  "address_of ''BJR'' = Inr 0" "address_of ''FJR'' = Inr 1" "address_of ''IC'' = Inr 2"
  "address_of ''TR1'' = Inr 3" "address_of ''TR2'' = Inr 4" "address_of ''TR3'' = Inr 5"
  "address_of ''TR4'' = Inr 6" "address_of ''TR5'' = Inr 7" "address_of ''CRR'' = Inr 8"
  "address_of ''PC'' = Inr 9"
  by (simp_all add: reg_simps)

lemma ptr_pm: "address_of a = Inr ka \<Longrightarrow> address_of b = Inr kb \<Longrightarrow> ptr a b = Inr (pm ka kb)"
  by (simp add: ptr_def bindE_def pm_def)

lemma mv_eq: "address_of a = Inr ka \<Longrightarrow> address_of b = Inr kb \<Longrightarrow> mv a b = Inr (mv_code ka kb)"
  by (simp add: mv_def ptr_pm bindE_def mv_code_def mv_body_def)

lemma cp_eq:
  "address_of s = Inr ks \<Longrightarrow> address_of d = Inr kd \<Longrightarrow> address_of t = Inr kt
     \<Longrightarrow> cp s d t = Inr (cp_code ks kd kt)"
  by (simp add: cp_def ptr_pm mv_eq bindE_def cp_code_def fan_body_def)

lemma gt_setup_eq:
  "address_of a = Inr ka \<Longrightarrow> address_of b = Inr kb \<Longrightarrow> gt_setup a b = Inr (gt_setup_code ka kb)"
  by (simp add: gt_setup_def cp_eq[OF _ scratch_address(8) scratch_address(7)]
      cp_eq[OF _ scratch_address(6) scratch_address(7)]
      cp_eq[OF scratch_address(8) scratch_address(4) scratch_address(5)]
      ptr_pm[OF _ scratch_address(8)] ptr_pm bindE_def gt_setup_code_def)

lemma inot_eq:
  "address_of a = Inr ka \<Longrightarrow> address_of d = Inr kd \<Longrightarrow> inot a d = Inr (inot_code ka kd)"
  by (simp add: inot_def ptr_pm bindE_def inot_code_def)

lemma bsem_pm_rel: "bsem ds ms (pm a b) (mem, q, os) (mem, q + int b - int a, os)"
proof (cases "b > a")
  case True
  then show ?thesis using bsem_rep_right[of ds ms "b - a" mem q os]
    by (simp add: pm_def algebra_simps of_nat_diff)
next
  case False
  then show ?thesis using bsem_rep_left[of ds ms "a - b" mem q os]
    by (simp add: pm_def algebra_simps of_nat_diff)
qed

lemma bsem_inot:
  assumes "a \<noteq> d" "a < length mem" "d < length mem" "int (length mem) \<le> ms"
    "0 \<le> mem ! a" "mem ! a < ds"
  shows "bsem ds ms (inot_code a d) (mem, int a, os)
           (if mem ! a = 0 then addc ds d 1 mem
            else addc ds d (- 1) ((addc ds d 1 mem)[a := 0]), int a, os)"
proof -
  have ds: "0 < ds" using assms by auto
  let ?m1 = "addc ds d 1 mem"
  let ?body = "''[-]'' @ pm a d @ ''-'' @ pm d a"
  have 1: "bsem ds ms (pm a d) (mem, int a, os) (mem, int d, os)" by (rule bsem_pm)
  have 2: "bsem ds ms ''+'' (mem, int d, os) (?m1, int d, os)"
    by (rule bsem_inc) (use assms ds in auto)
  have 3: "bsem ds ms (pm d a) (?m1, int d, os) (?m1, int a, os)" by (rule bsem_pm)
  have a1: "?m1 ! a = mem ! a" using assms by (simp add: nth_addc)
  have balb: "bal ?body"
    by (intro bal_append bal_pm) (auto simp: bal_def parse_def)
  let ?fin = "if mem ! a = 0 then ?m1 else addc ds d (- 1) (?m1[a := 0])"
  have 4: "bloop ds ms ?body (?m1, int a, os) (?fin, int a, os)"
  proof (cases "mem ! a = 0")
    case True
    have "bloop ds ms ?body (?m1, int a, os) (?m1, int a, os)"
      by (rule bloop_exit[OF balb]) (use assms a1 True in auto)
    then show ?thesis using True by simp
  next
    case False
    let ?m2 = "?m1[a := 0]"
    let ?m3 = "addc ds d (- 1) ?m2"
    have b1: "bsem ds ms ''[-]'' (?m1, int a, os) (?m2, int a, os)"
      by (rule bsem_clr) (use assms ds a1 in auto)
    have b2: "bsem ds ms (pm a d) (?m2, int a, os) (?m2, int d, os)" by (rule bsem_pm)
    have b3: "bsem ds ms ''-'' (?m2, int d, os) (?m3, int d, os)"
      by (rule bsem_dec) (use assms ds in auto)
    have b4: "bsem ds ms (pm d a) (?m3, int d, os) (?m3, int a, os)" by (rule bsem_pm)
    have body: "bsem ds ms ?body (?m1, int a, os) (?m3, int a, os)"
      by (intro bsem_append[OF b1] bsem_append[OF b2] bsem_append[OF b3] b4)
    have z: "?m3 ! a = 0" using assms by (simp add: nth_addc)
    have ex: "bloop ds ms ?body (?m3, int a, os) (?m3, int a, os)"
      by (rule bloop_exit[OF balb]) (use assms z in auto)
    have "bloop ds ms ?body (?m1, int a, os) (?m3, int a, os)"
      by (rule bloop_iter[OF _ _ _ body ex]) (use assms a1 False in auto)
    then show ?thesis using False by simp
  qed
  have "bsem ds ms (pm a d @ ''+'' @ pm d a @ (CHR ''['' # ?body @ '']'')) (mem, int a, os) (?fin, int a, os)"
    by (intro bsem_append[OF 1] bsem_append[OF 2] bsem_append[OF 3] bsem_loop[OF 4])
  then show ?thesis by (simp add: inot_code_def)
qed

lemma new_machine_at:
  "0 \<le> ms \<Longrightarrow> new_machine P ds ms = machine_at P ds (replicate (nat ms) 0) 0"
  by (simp add: new_machine_def machine_at_def)


section \<open>Loop openings and closings of the emitted texts\<close>

lemma net_Nil [simp]: "net [] = 0"
  by (simp add: net_def)

lemma net_Cons [simp]:
  "net (c # cs) = (if c = CHR ''['' then 1 else if c = CHR '']'' then - 1 else 0) + net cs"
  by (simp add: net_def)

lemma net_append [simp]: "net (a @ b) = net a + net b"
  by (induction a) auto

lemma net_replicate [simp]: "c \<noteq> CHR ''['' \<Longrightarrow> c \<noteq> CHR '']'' \<Longrightarrow> net (replicate n c) = 0"
  by (induction n) auto

lemma netE_Inr [simp]: "netE (Inr x) = net x"
  by (simp add: netE_def)

lemma netE_Inl [simp]: "netE (Inl e) = 0"
  by (simp add: netE_def)

lemma netE_D: "p = Inr x \<Longrightarrow> netE p = k \<Longrightarrow> net x = k"
  by simp

lemma net_catE: "catE ps = Inr s \<Longrightarrow> net s = sum_list (map netE ps)"
proof (induction ps arbitrary: s)
  case Nil
  then show ?case by simp
next
  case (Cons p ps)
  then show ?case by (auto simp: bindE_def split: sum.splits)
qed

lemma netE_catE: "sum_list (map netE ps) = 0 \<Longrightarrow> netE (catE ps) = 0"
  using net_catE[of ps] by (cases "catE ps") auto

lemma netE_ptr [simp]: "netE (ptr a b) = 0"
  by (auto simp: ptr_def bindE_def split: sum.splits)

lemma netE_mv [simp]: "netE (mv a b) = 0"
  unfolding mv_def by (rule netE_catE) simp

lemma netE_cp [simp]: "netE (cp a b c) = 0"
  unfolding cp_def by (rule netE_catE) simp

lemma netE_bindE:
  "(\<And>x. p = Inr x \<Longrightarrow> netE (f x) = 0) \<Longrightarrow> netE (bindE p f) = 0"
  by (cases p) (auto simp: bindE_def)

lemma net_ptr: "ptr a b = Inr x \<Longrightarrow> net x = 0"
  using netE_ptr[of a b] by simp

lemma net_cp: "cp a b c = Inr x \<Longrightarrow> net x = 0"
  using netE_cp[of a b c] by simp

lemma netE_py_int [simp]: "netE (bindE (py_int v) (\<lambda>n. Inr (replicate (nat n) CHR ''+''))) = 0"
  by (cases "py_int v") (auto simp: bindE_def)

lemma netE_gt_setup [simp]: "netE (gt_setup a b) = 0"
  unfolding gt_setup_def
  by (intro netE_bindE netE_catE) (auto simp del: catE.simps dest!: net_cp)

lemma netE_inot [simp]: "netE (inot a b) = 0"
  unfolding inot_def
  by (intro netE_bindE) (auto simp del: catE.simps dest!: net_ptr)

lemma netE_clear_cond [simp]: "netE (clear_cond a) = 0"
  unfolding clear_cond_def by (rule netE_catE) simp

lemma netE_add [simp]: "netE (add i ls n) = 0"
  unfolding add_def Let_def
  by (auto simp del: catE.simps intro!: netE_bindE netE_catE dest!: net_ptr
      split: OperandType.splits)

lemma netE_mov [simp]: "netE (mov i ls n) = 0"
  unfolding mov_def Let_def
  by (auto simp del: catE.simps intro!: netE_bindE netE_catE simp: clr_def)

lemma netE_out [simp]: "netE (out i ls n) = 0"
  unfolding out_def Let_def
  by (auto simp del: catE.simps intro!: netE_bindE netE_catE)

lemma netE_gt [simp]: "netE (gt i ls n) = 0"
  unfolding gt_def Let_def
  by (auto simp del: catE.simps intro!: netE_bindE netE_catE simp: gt_code_def)

lemma netE_branch_reg [simp]: "netE (branch_reg r) = 0"
proof (cases "branch_reg r")
  case (Inl e)
  then show ?thesis by simp
next
  case (Inr s)
  then obtain c1 s1 c2 s2 c3 where
    c1: "catE [ptr ''IC'' ''PC'', gt_setup ''PC'' r, Inr (gt_code @ ''\<newline>''),
                  cp ''TR1'' ''TR3'' ''TR4'', ptr ''TR1'' ''TR3'', inot ''TR3'' ''TR2'',
                  ptr ''TR3'' ''TR1'', Inr ''\<newline>''] = Inr c1"
    and s1: "catE [ptr ''TR1'' ''PC'', cp ''PC'' ''TR3'' ''TR5'', ptr ''PC'' r,
                  cp r ''TR4'' ''TR5'', ptr r ''TR4'', Inr ''[-<->]<''] = Inr s1"
    and c2: "catE [Inr ''['', Inr s1, Inr ''\<newline>+'', mv ''TR3'' ''BJR'', ptr ''TR3'' ''TR1'',
                  Inr ''-]\<newline>''] = Inr c2"
    and s2: "catE [ptr ''TR2'' ''PC'', cp ''PC'' ''TR4'' ''TR5'', ptr ''PC'' r,
                  cp r ''TR3'' ''TR5'', ptr r ''TR4'', Inr ''[-<->]<''] = Inr s2"
    and c3: "catE [Inr ''>['', Inr s2, mv ''TR3'' ''FJR'', ptr ''TR3'' ''TR2'', Inr ''-]'',
                  ptr ''TR2'' ''IC''] = Inr c3"
    and s: "s = c1 @ c2 @ c3"
    unfolding branch_reg_def bindE_def by (auto split: sum.splits)
  have "net c1 = 0" using net_catE[OF c1] by (simp add: gt_code_def)
  moreover have n1: "net s1 = 0" using net_catE[OF s1] by simp
  moreover have "net c2 = 0" using net_catE[OF c2] n1 by simp
  moreover have n2: "net s2 = 0" using net_catE[OF s2] by simp
  moreover have "net c3 = 0" using net_catE[OF c3] n2 by simp
  ultimately show ?thesis using Inr s by simp
qed

lemma netE_branch [simp]: "netE (branch i ls n) = 0"
  unfolding branch_def Let_def
  by (auto simp del: catE.simps intro!: netE_catE simp: inc_def split: option.splits)

lemma IPtr_net: "IPtr nm = Some f \<Longrightarrow> netE (f i ls n) = 0"
  by (auto simp: IPtr_def split: if_splits)

lemma net_wrap: "wrap body n = Inr w \<Longrightarrow> net w = net body - 1"
  using net_catE[of "[set_pc n, Inr (fjump_wrap body), Inr bjump_post]" w]
    netE_catE[of "[ptr ''FJR'' ''PC'', Inr clr, Inr (inc n), ptr ''PC'' ''FJR'', Inr ''\<newline>'']"]
  by (simp add: wrap_def set_pc_def fjump_wrap_def bjump_post_def clr_def inc_def)

lemma net_cond: "cond body = Inr c \<Longrightarrow> net c = net body"
  using net_catE[of "[ptr ''IC'' ''CRR'', cp ''CRR'' ''IC'' ''TR1'', ptr ''CRR'' ''IC'',
           Inr (''[-'' @ body @ '']'')]" c]
  by (simp add: cond_def)

lemma assemble_loop_net:
  "assemble_loop n is ls bf = Inr t \<Longrightarrow> \<exists>blocks. t = bf @ blocks \<and> net blocks = - int (length is)"
proof (induction "is" arbitrary: n bf)
  case Nil
  then show ?case by simp
next
  case (Cons i "is")
  show ?case
  proof (cases "iname i \<noteq> [] \<and> last (iname i) = CHR ''C'' \<and> butlast (iname i) \<in> dom IPtr")
    case True
    then obtain f where f: "IPtr (butlast (iname i)) = Some f" by auto
    from Cons.prems True f obtain istr c w where
      1: "f i ls n = Inr istr" and 2: "cond istr = Inr c" and 3: "wrap c n = Inr w"
      and 4: "assemble_loop (n + 1) is ls (bf @ w) = Inr t"
      by (auto simp: bindE_def split: sum.splits)
    from Cons.IH[OF 4] obtain blocks where b: "t = (bf @ w) @ blocks" "net blocks = - int (length is)"
      by blast
    have "net istr = 0" using IPtr_net[OF f, of i ls n] 1 by simp
    then have "net w = - 1" using net_cond[OF 2] net_wrap[OF 3] by simp
    then show ?thesis using b by (intro exI[of _ "w @ blocks"]) simp
  next
    case False
    then obtain f where f: "IPtr (iname i) = Some f" and d: "iname i \<in> dom IPtr"
      using Cons.prems by (auto split: if_splits)
    from Cons.prems False f d obtain istr w where
      1: "f i ls n = Inr istr" and 3: "wrap istr n = Inr w"
      and 4: "assemble_loop (n + 1) is ls (bf @ w) = Inr t"
      by (auto simp: bindE_def split: sum.splits if_splits)
    from Cons.IH[OF 4] obtain blocks where b: "t = (bf @ w) @ blocks" "net blocks = - int (length is)"
      by blast
    have "net istr = 0" using IPtr_net[OF f, of i ls n] 1 by simp
    then have "net w = - 1" using net_wrap[OF 3] by simp
    then show ?thesis using b by (intro exI[of _ "w @ blocks"]) simp
  qed
qed

lemma count_concat_open: "count_list (concat (replicate n ''[-'')) CHR ''['' = n"
  by (induction n) auto

lemma count_concat_close: "count_list (concat (replicate n ''[-'')) CHR '']'' = 0"
  by (induction n) auto

lemma count_replicate_other: "c \<noteq> x \<Longrightarrow> count_list (replicate n c) x = 0"
  by (induction n) auto

lemma addc_addc: "k < length mem \<Longrightarrow> addc ds k v (addc ds k w mem) = addc ds k (w + v) mem"
  by (simp add: addc_def mod_add_left_eq add.assoc)

lemma bsem_rep_inc:
  assumes "k < length mem" "int (length mem) \<le> ms" "ds \<noteq> 0"
  shows "bsem ds ms (replicate (Suc n) CHR ''+'') (mem, int k, os) (addc ds k (int (Suc n)) mem, int k, os)"
  using assms(1,2)
proof (induction n arbitrary: mem)
  case 0
  have "bsem ds ms ''+'' (mem, int k, os) (addc ds k 1 mem, int k, os)"
    by (rule bsem_inc) (use 0 assms in auto)
  then show ?case by simp
next
  case (Suc n)
  have 1: "bsem ds ms ''+'' (mem, int k, os) (addc ds k 1 mem, int k, os)"
    by (rule bsem_inc) (use Suc.prems assms in auto)
  have 2: "bsem ds ms (replicate (Suc n) CHR ''+'') (addc ds k 1 mem, int k, os)
      (addc ds k (int (Suc n)) (addc ds k 1 mem), int k, os)"
    by (rule Suc.IH) (use Suc.prems in simp_all)
  have "addc ds k (int (Suc n)) (addc ds k 1 mem) = addc ds k (int (Suc (Suc n))) mem"
    using Suc.prems by (simp add: addc_addc)
  then show ?case using bsem_Cons[OF 1 2] by simp
qed


section \<open>Pointer contracts of counted loops and of the instruction bodies\<close>

lemma wfm_nth: "wfm ds n mem \<Longrightarrow> k < n \<Longrightarrow> 0 \<le> mem ! k \<and> mem ! k < ds"
  by (auto simp: wfm_def)

lemma wfm_length: "wfm ds n mem \<Longrightarrow> length mem = n"
  by (simp add: wfm_def)

lemma wfm_update: "wfm ds n mem \<Longrightarrow> 0 \<le> v \<Longrightarrow> v < ds \<Longrightarrow> wfm ds n (mem[k := v])"
  by (auto simp: wfm_def dest!: set_update_subset_insert[THEN subsetD])

lemma wfm_addc: "wfm ds n mem \<Longrightarrow> 0 < ds \<Longrightarrow> wfm ds n (addc ds k v mem)"
  unfolding addc_def by (rule wfm_update) auto

lemma addc_other: "k \<noteq> q \<Longrightarrow> addc ds q v mem ! k = mem ! k"
  by (simp add: addc_def)

lemma addc_frame: "q \<notin> K \<Longrightarrow> \<forall>k\<in>K. addc ds q v mem ! k = mem ! k"
proof
  fix k assume "q \<notin> K" "k \<in> K"
  then have "k \<noteq> q" by auto
  then show "addc ds q v mem ! k = mem ! k" by (rule addc_other)
qed

lemma wfm_replicate: "0 < ds \<Longrightarrow> wfm ds n (replicate n 0)"
  by (simp add: wfm_def)

lemma wkI:
  assumes "\<And>mem os. wfm ds n mem \<Longrightarrow>
    \<exists>mem' os'. bsem ds (int n) code (mem, int q, os) (mem', int q', os')
       \<and> wfm ds n mem' \<and> (\<forall>k\<in>K. mem' ! k = mem ! k)"
  shows "wk ds n K code q q'"
  using assms by (simp add: wk_def)

lemma wkD:
  assumes "wk ds n K code q q'" "wfm ds n mem"
  obtains mem' os' where "bsem ds (int n) code (mem, int q, os) (mem', int q', os')"
    "wfm ds n mem'" "\<And>k. k \<in> K \<Longrightarrow> mem' ! k = mem ! k"
  using assms unfolding wk_def by blast

lemma wk_bal: "0 < ds \<Longrightarrow> wk ds n K code q q' \<Longrightarrow> bal code"
  using wfm_replicate[of ds n] bsem_bal unfolding wk_def by blast

lemma wk_Nil: "wk ds n K [] q q"
  by (rule wkI) (auto intro: bsem_Nil)

lemma wk_append:
  assumes "wk ds n K a q q1" "wk ds n K b q1 q2"
  shows "wk ds n K (a @ b) q q2"
proof (rule wkI)
  fix mem os
  assume w: "wfm ds n mem"
  from wkD[OF assms(1) w, where os = os] obtain m1 o1 where
    1: "bsem ds (int n) a (mem, int q, os) (m1, int q1, o1)" "wfm ds n m1"
    "\<And>k. k \<in> K \<Longrightarrow> m1 ! k = mem ! k" by metis
  from wkD[OF assms(2) 1(2), where os = o1] obtain m2 o2 where
    2: "bsem ds (int n) b (m1, int q1, o1) (m2, int q2, o2)" "wfm ds n m2"
    "\<And>k. k \<in> K \<Longrightarrow> m2 ! k = m1 ! k" by metis
  show "\<exists>mem' os'. bsem ds (int n) (a @ b) (mem, int q, os) (mem', int q2, os')
       \<and> wfm ds n mem' \<and> (\<forall>k\<in>K. mem' ! k = mem ! k)"
    using bsem_append[OF 1(1) 2(1)] 2(2) 1(3) 2(3) by auto
qed

lemma wk_Cons: "wk ds n K [c] q q1 \<Longrightarrow> wk ds n K cs q1 q2 \<Longrightarrow> wk ds n K (c # cs) q q2"
  using wk_append[of ds n K "[c]" q q1 cs q2] by simp

lemma wk_weaken: "wk ds n K code q q' \<Longrightarrow> K' \<subseteq> K \<Longrightarrow> wk ds n K' code q q'"
  unfolding wk_def by blast

lemma wk_pm: "wk ds n K (pm a b) a b"
  by (rule wkI) (auto intro: bsem_pm)

lemma wk_skip:
  assumes "c \<notin> set ''+-><.![]''"
  shows "wk ds n K [c] q q"
proof (rule wkI)
  fix mem os
  assume w: "wfm ds n mem"
  have "bsem ds (int n) [c] (mem, int q, os) (mem, int q, os)" by (rule bsem_skip[OF assms])
  then show "\<exists>mem' os'. bsem ds (int n) [c] (mem, int q, os) (mem', int q, os')
       \<and> wfm ds n mem' \<and> (\<forall>k\<in>K. mem' ! k = mem ! k)"
    using w by blast
qed

lemma wk_newline: "wk ds n K ''\<newline>'' q q"
  by (rule wk_skip) simp

lemma wk_inc: "0 < ds \<Longrightarrow> q < n \<Longrightarrow> q \<notin> K \<Longrightarrow> wk ds n K ''+'' q q"
proof (rule wkI)
  fix mem os
  assume a: "0 < ds" "q < n" "q \<notin> K" "wfm ds n mem"
  have "bsem ds (int n) ''+'' (mem, int q, os) (addc ds q 1 mem, int q, os)"
    by (rule bsem_inc) (use a in \<open>auto simp: wfm_def\<close>)
  moreover have "\<forall>k\<in>K. addc ds q 1 mem ! k = mem ! k" by (rule addc_frame[OF a(3)])
  ultimately show "\<exists>mem' os'. bsem ds (int n) ''+'' (mem, int q, os) (mem', int q, os')
       \<and> wfm ds n mem' \<and> (\<forall>k\<in>K. mem' ! k = mem ! k)"
    using wfm_addc[OF a(4,1)] by blast
qed

lemma wk_dec: "0 < ds \<Longrightarrow> q < n \<Longrightarrow> q \<notin> K \<Longrightarrow> wk ds n K ''-'' q q"
proof (rule wkI)
  fix mem os
  assume a: "0 < ds" "q < n" "q \<notin> K" "wfm ds n mem"
  have "bsem ds (int n) ''-'' (mem, int q, os) (addc ds q (- 1) mem, int q, os)"
    by (rule bsem_dec) (use a in \<open>auto simp: wfm_def\<close>)
  moreover have "\<forall>k\<in>K. addc ds q (- 1) mem ! k = mem ! k" by (rule addc_frame[OF a(3)])
  ultimately show "\<exists>mem' os'. bsem ds (int n) ''-'' (mem, int q, os) (mem', int q, os')
       \<and> wfm ds n mem' \<and> (\<forall>k\<in>K. mem' ! k = mem ! k)"
    using wfm_addc[OF a(4,1)] by blast
qed

lemma wk_rep_inc: "0 < ds \<Longrightarrow> q < n \<Longrightarrow> q \<notin> K \<Longrightarrow> wk ds n K (replicate j CHR ''+'') q q"
  by (induction j) (auto intro: wk_Nil wk_Cons wk_inc)

lemma wk_out: "q < n \<Longrightarrow> wk ds n K ''.'' q q"
proof (rule wkI)
  fix mem os
  assume a: "q < n" "wfm ds n mem"
  have "bsem ds (int n) ''.'' (mem, int q, os) (mem, int q, os @ [mem ! nat (int q)])"
    by (rule bsem_out) (use a in \<open>auto simp: wfm_def\<close>)
  then show "\<exists>mem' os'. bsem ds (int n) ''.'' (mem, int q, os) (mem', int q, os')
       \<and> wfm ds n mem' \<and> (\<forall>k\<in>K. mem' ! k = mem ! k)"
    using a(2) by blast
qed

lemma wk_loop:
  assumes "q < n" "bal B"
    and body: "\<And>mem os. wfm ds n mem \<Longrightarrow> mem ! q \<noteq> 0 \<Longrightarrow>
      \<exists>mem' os'. bsem ds (int n) B (mem, int q, os) (mem', int q, os')
         \<and> wfm ds n mem' \<and> (\<forall>k\<in>K. mem' ! k = mem ! k) \<and> mem' ! q = mem ! q - 1"
  shows "wk ds n K (CHR ''['' # B @ '']'') q q"
proof (rule wkI)
  fix mem os
  assume w: "wfm ds n mem"
  have "\<exists>mem' os'. bloop ds (int n) B (mem, int q, os) (mem', int q, os')
       \<and> wfm ds n mem' \<and> (\<forall>k\<in>K. mem' ! k = mem ! k)" if "nat (mem ! q) = v" for v
    using w that
  proof (induction v arbitrary: mem os)
    case 0
    then have z: "mem ! q = 0" using wfm_nth[OF "0.prems"(1) assms(1)] by simp
    have "bloop ds (int n) B (mem, int q, os) (mem, int q, os)"
      by (rule bloop_exit[OF assms(2)]) (use z 0 assms(1) in \<open>auto simp: wfm_def\<close>)
    then show ?case using 0 by blast
  next
    case (Suc v)
    then have nz: "mem ! q \<noteq> 0" by auto
    from body[OF Suc.prems(1) nz, of os] obtain m1 o1 where
      1: "bsem ds (int n) B (mem, int q, os) (m1, int q, o1)" "wfm ds n m1"
      "\<forall>k\<in>K. m1 ! k = mem ! k" "m1 ! q = mem ! q - 1" by blast
    have "nat (m1 ! q) = v" using 1(4) Suc.prems(2) by simp
    from Suc.IH[OF 1(2) this, of o1] obtain m2 o2 where
      2: "bloop ds (int n) B (m1, int q, o1) (m2, int q, o2)" "wfm ds n m2"
      "\<forall>k\<in>K. m2 ! k = m1 ! k" by blast
    have "bloop ds (int n) B (mem, int q, os) (m2, int q, o2)"
      by (rule bloop_iter[OF _ _ _ 1(1) 2(1)]) (use nz Suc.prems assms(1) in \<open>auto simp: wfm_def\<close>)
    then show ?case using 2(2,3) 1(3) by auto
  qed
  then show "\<exists>mem' os'. bsem ds (int n) (CHR ''['' # B @ '']'') (mem, int q, os) (mem', int q, os')
       \<and> wfm ds n mem' \<and> (\<forall>k\<in>K. mem' ! k = mem ! k)"
    using bsem_loop by blast
qed

lemma wk_countdown_post:
  assumes "0 < ds" "q < n" "q \<notin> K" "wk ds n (insert q K) body q q"
  shows "wk ds n K (CHR ''['' # (body @ ''-'') @ '']'') q q"
proof (rule wk_loop[OF assms(2)])
  show "bal (body @ ''-'')"
    by (intro bal_append wk_bal[OF assms(1,4)] bal_char) auto
next
  fix mem os
  assume w: "wfm ds n mem" and nz: "mem ! q \<noteq> 0"
  from wkD[OF assms(4) w, where os = os] obtain m1 o1 where
    1: "bsem ds (int n) body (mem, int q, os) (m1, int q, o1)" "wfm ds n m1"
    "\<And>k. k \<in> insert q K \<Longrightarrow> m1 ! k = mem ! k" by metis
  let ?m2 = "addc ds q (- 1) m1"
  have 2: "bsem ds (int n) ''-'' (m1, int q, o1) (?m2, int q, o1)"
    by (rule bsem_dec) (use 1(2) assms in \<open>auto simp: wfm_def\<close>)
  have r: "0 \<le> mem ! q" "mem ! q < ds" using wfm_nth[OF w assms(2)] by auto
  have "?m2 ! q = mem ! q - 1"
    using 1(2) 1(3)[of q] assms(2) r nz by (simp add: nth_addc wfm_def)
  moreover have "\<forall>k\<in>K. ?m2 ! k = mem ! k"
    using 1(3) addc_frame[OF assms(3), where ds = ds and v = "- 1" and mem = m1] by auto
  ultimately show "\<exists>mem' os'. bsem ds (int n) (body @ ''-'') (mem, int q, os) (mem', int q, os')
         \<and> wfm ds n mem' \<and> (\<forall>k\<in>K. mem' ! k = mem ! k) \<and> mem' ! q = mem ! q - 1"
    using bsem_append[OF 1(1) 2] wfm_addc[OF 1(2) assms(1)] by blast
qed

lemma wk_countdown_pre:
  assumes "0 < ds" "q < n" "q \<notin> K" "wk ds n (insert q K) body q q"
  shows "wk ds n K (CHR ''['' # (CHR ''-'' # body) @ '']'') q q"
proof (rule wk_loop[OF assms(2)])
  show "bal (CHR ''-'' # body)"
    by (intro bal_Cons wk_bal[OF assms(1,4)]) auto
next
  fix mem os
  assume w: "wfm ds n mem" and nz: "mem ! q \<noteq> 0"
  let ?m1 = "addc ds q (- 1) mem"
  have 1: "bsem ds (int n) ''-'' (mem, int q, os) (?m1, int q, os)"
    by (rule bsem_dec) (use w assms in \<open>auto simp: wfm_def\<close>)
  have w1: "wfm ds n ?m1" by (rule wfm_addc[OF w assms(1)])
  from wkD[OF assms(4) w1, where os = os] obtain m2 o2 where
    2: "bsem ds (int n) body (?m1, int q, os) (m2, int q, o2)" "wfm ds n m2"
    "\<And>k. k \<in> insert q K \<Longrightarrow> m2 ! k = ?m1 ! k" by metis
  have r: "0 \<le> mem ! q" "mem ! q < ds" using wfm_nth[OF w assms(2)] by auto
  have "m2 ! q = mem ! q - 1"
    using 2(3)[of q] assms(2) r nz w by (simp add: nth_addc wfm_def)
  moreover have "\<forall>k\<in>K. m2 ! k = mem ! k"
    using 2(3) addc_frame[OF assms(3), where ds = ds and v = "- 1" and mem = mem] by auto
  ultimately show "\<exists>mem' os'. bsem ds (int n) (CHR ''-'' # body) (mem, int q, os) (mem', int q, os')
         \<and> wfm ds n mem' \<and> (\<forall>k\<in>K. mem' ! k = mem ! k) \<and> mem' ! q = mem ! q - 1"
    using bsem_Cons[OF 1 2(1)] 2(2) by blast
qed

lemma wk_clr: "0 < ds \<Longrightarrow> q < n \<Longrightarrow> q \<notin> K \<Longrightarrow> wk ds n K ''[-]'' q q"
  using wk_countdown_pre[of ds q n K "[]"] by (simp add: wk_Nil)

lemma wk_mv:
  assumes "0 < ds" "a < n" "b < n" "a \<noteq> b" "a \<notin> K" "b \<notin> K"
  shows "wk ds n K (mv_code a b) a a"
  unfolding mv_code_def mv_body_def
  by (rule wk_countdown_pre[OF assms(1,2,5)])
    (intro wk_append[OF wk_pm] wk_Cons[OF wk_inc] wk_pm; use assms in auto)

lemma wk_fan:
  assumes "0 < ds" "x < n" "y < n" "z < n" "x \<noteq> y" "x \<noteq> z" "x \<notin> K" "y \<notin> K" "z \<notin> K"
  shows "wk ds n K (CHR ''['' # fan_body x y z @ '']'') x x"
  unfolding fan_body_def
  by (rule wk_countdown_pre[OF assms(1,2,7)])
    (intro wk_append[OF wk_pm] wk_Cons[OF wk_inc] wk_pm; use assms in auto)

lemma wk_cp:
  assumes "0 < ds" "s < n" "d < n" "t < n" "s \<noteq> d" "s \<noteq> t" "s \<notin> K" "d \<notin> K" "t \<notin> K"
  shows "wk ds n K (cp_code s d t) s s"
  unfolding cp_code_def
  by (intro wk_append[OF wk_fan] wk_append[OF wk_pm] wk_append[OF wk_mv] wk_pm; use assms in auto)

lemma wk_sub:
  assumes "0 < ds" "Suc q < n" "q \<notin> K" "Suc q \<notin> K"
  shows "wk ds n K ''[-<->]'' (Suc q) (Suc q)"
proof -
  have "wk ds n (insert (Suc q) K) (pm (Suc q) q @ ''-'' @ pm q (Suc q)) (Suc q) (Suc q)"
    by (intro wk_append[OF wk_pm] wk_append[OF wk_dec] wk_pm; use assms in auto)
  then have "wk ds n (insert (Suc q) K) ''<->'' (Suc q) (Suc q)" by (simp add: pm_def)
  from wk_countdown_pre[OF assms(1,2,4) this] show ?thesis by simp
qed

lemma wk_inot:
  assumes "0 < ds" "a < n" "d < n" "a \<noteq> d" "a \<notin> K" "d \<notin> K"
  shows "wk ds n K (inot_code a d) a a"
proof (rule wkI)
  fix mem os
  assume w: "wfm ds n mem"
  let ?fin = "if mem ! a = 0 then addc ds d 1 mem else addc ds d (- 1) ((addc ds d 1 mem)[a := 0])"
  have "bsem ds (int n) (inot_code a d) (mem, int a, os) (?fin, int a, os)"
    by (rule bsem_inot) (use assms w wfm_nth[OF w assms(2)] in \<open>auto simp: wfm_def\<close>)
  moreover have "wfm ds n ?fin"
    using w assms(1) by (auto intro!: wfm_addc wfm_update)
  moreover have "\<forall>k\<in>K. ?fin ! k = mem ! k"
  proof
    fix k assume "k \<in> K"
    then have "k \<noteq> a" "k \<noteq> d" using assms(5,6) by auto
    then show "?fin ! k = mem ! k" by (simp add: addc_other)
  qed
  ultimately show "\<exists>mem' os'. bsem ds (int n) (inot_code a d) (mem, int a, os) (mem', int a, os')
       \<and> wfm ds n mem' \<and> (\<forall>k\<in>K. mem' ! k = mem ! k)" by blast
qed

lemma bsem_cp_zero:
  assumes "s < length mem" "t < length mem" "int (length mem) \<le> ms" "mem ! s = 0" "mem ! t = 0"
  shows "bsem ds ms (cp_code s d t) (mem, int s, os) (mem, int s, os)"
proof -
  have 1: "bsem ds ms (CHR ''['' # fan_body s d t @ '']'') (mem, int s, os) (mem, int s, os)"
    by (rule bsem_loop, rule bloop_exit[OF bal_fan_body]) (use assms in auto)
  have 2: "bsem ds ms (pm s t) (mem, int s, os) (mem, int t, os)" by (rule bsem_pm)
  have 3: "bsem ds ms (mv_code t s) (mem, int t, os) (mem, int t, os)"
    unfolding mv_code_def
    by (rule bsem_loop, rule bloop_exit[OF bal_mv_body]) (use assms in auto)
  have 4: "bsem ds ms (pm t s) (mem, int t, os) (mem, int s, os)" by (rule bsem_pm)
  show ?thesis unfolding cp_code_def
    by (intro bsem_append[OF 1] bsem_append[OF 2] bsem_append[OF 3] 4)
qed

lemma bsem_cp_gen:
  assumes "wfm ds n mem" "s < n" "d < n" "t < n" "d \<noteq> t" "mem ! t = 0"
    "mem ! s \<noteq> 0 \<Longrightarrow> s \<noteq> d \<and> s \<noteq> t"
  shows "bsem ds (int n) (cp_code s d t) (mem, int s, os) (addc ds d (mem ! s) mem, int s, os)"
proof (cases "mem ! s = 0")
  case True
  have "addc ds d (mem ! s) mem = mem"
    using True wfm_nth[OF assms(1,3)] assms(1,3)
    by (simp add: addc_def wfm_def list_update_same_conv)
  then show ?thesis using bsem_cp_zero[of s mem t "int n" ds d os] assms True
    by (simp add: wfm_def)
next
  case False
  have ds: "0 < ds" using wfm_nth[OF assms(1,2)] by linarith
  have len: "length mem = n" using assms(1) by (simp add: wfm_def)
  show ?thesis
    by (rule bsem_cp)
      (use assms(2-7) False ds len wfm_nth[OF assms(1,2)] wfm_nth[OF assms(1,3)] in auto)
qed

lemma gt_setup_gen:
  assumes "wfm ds n mem" "8 \<le> n" "a < n" "b < n" "0 < ds"
    "mem ! 3 = 0" "mem ! 4 = 0" "mem ! 5 = 0" "mem ! 6 = 0" "mem ! 7 = 0"
  shows "\<exists>mem'. bsem ds (int n) (gt_setup_code a b) (mem, int a, os) (mem', 7, os)
     \<and> wfm ds n mem' \<and> mem' ! 4 = 0 \<and> mem' ! 6 = 0 \<and> mem' ! 7 = mem' ! 3"
proof -
  have len: "length mem = n" using assms(1) by (simp add: wfm_def)
  let ?m1 = "addc ds 7 (mem ! a) mem"
  let ?m2 = "addc ds 5 (?m1 ! b) ?m1"
  let ?m3 = "addc ds 3 (?m2 ! 7) ?m2"
  have w1: "wfm ds n ?m1" by (rule wfm_addc[OF assms(1,5)])
  have w2: "wfm ds n ?m2" by (rule wfm_addc[OF w1 assms(5)])
  have w3: "wfm ds n ?m3" by (rule wfm_addc[OF w2 assms(5)])
  have 1: "bsem ds (int n) (cp_code a 7 6) (mem, int a, os) (?m1, int a, os)"
    by (rule bsem_cp_gen[OF assms(1)]) (use assms in auto)
  have 2: "bsem ds (int n) (pm a b) (?m1, int a, os) (?m1, int b, os)" by (rule bsem_pm)
  have z1: "?m1 ! 5 = 0" "?m1 ! 6 = 0" "?m1 ! 3 = 0" "?m1 ! 4 = 0"
    using assms len by (simp_all add: nth_addc)
  have 3: "bsem ds (int n) (cp_code b 5 6) (?m1, int b, os) (?m2, int b, os)"
    by (rule bsem_cp_gen[OF w1]) (use assms z1 in auto)
  have 4: "bsem ds (int n) (pm b 7) (?m2, int b, os) (?m2, int 7, os)" by (rule bsem_pm)
  have z2: "?m2 ! 3 = 0" "?m2 ! 4 = 0" "?m2 ! 6 = 0"
    using assms len z1 by (simp_all add: nth_addc)
  have 5: "bsem ds (int n) (cp_code 7 3 4) (?m2, int 7, os) (?m3, int 7, os)"
    by (rule bsem_cp_gen[OF w2]) (use assms z2 in auto)
  have r7: "0 \<le> ?m2 ! 7" "?m2 ! 7 < ds" using wfm_nth[OF w2, of 7] assms(2) by auto
  have e: "?m3 ! 7 = ?m3 ! 3" "?m3 ! 4 = 0" "?m3 ! 6 = 0"
    using assms len z2 r7 by (simp_all add: nth_addc)
  have "bsem ds (int n) (gt_setup_code a b) (mem, int a, os) (?m3, int 7, os)"
    unfolding gt_setup_code_def
    by (intro bsem_append[OF 1] bsem_append[OF 2] bsem_append[OF 3] bsem_append[OF 4] 5)
  then show ?thesis using w3 e by auto
qed

lemma gt_code_gen:
  assumes "wfm ds n mem" "8 \<le> n" "mem ! 4 = 0" "mem ! 6 = 0" "mem ! 7 = mem ! 3"
  shows "\<exists>mem'. bsem ds (int n) gt_code (mem, 7, os) (mem', 3, os) \<and> wfm ds n mem'"
proof -
  have len: "length mem = n" using assms(1) by (simp add: wfm_def)
  let ?va = "mem ! 7"
  let ?vb = "mem ! 5"
  let ?res = "if ?va > ?vb then 1 else (0::int)"
  have ra: "0 \<le> ?va" "?va < ds" using wfm_nth[OF assms(1), of 7] assms(2) by auto
  have rb: "0 \<le> ?vb" "?vb < ds" using wfm_nth[OF assms(1), of 5] assms(2) by auto
  have "bsem ds (int n) gt_code (mem, 7, os) (mem[7 := 0, 5 := 0, 3 := ?res], 3, os)"
    by (rule bsem_gt_code) (use assms len ra rb in auto)
  moreover have "0 \<le> ?res" "?res < ds" using ra rb by auto
  then have "wfm ds n (mem[7 := 0, 5 := 0, 3 := ?res])"
    using assms(1) ra by (intro wfm_update) auto
  ultimately show ?thesis by blast
qed

lemma wk_sub1:
  assumes "0 < ds" "15 \<le> n" "8 \<le> k" "k < n" "K \<subseteq> {3, 4}"
  shows "wk ds n K (sub1_code k) 3 5"
proof -
  have "wk ds n K ''[-<->]'' (Suc 5) (Suc 5)"
    by (rule wk_sub) (use assms in auto)
  then have s: "wk ds n K ''[-<->]'' 6 6" by (simp add: eval_nat_numeral)
  show ?thesis unfolding sub1_code_def
    by (intro wk_append[OF wk_pm] wk_append[OF wk_cp] wk_append[OF s] wk_pm; use assms in auto)
qed

lemma wk_sub2:
  assumes "0 < ds" "15 \<le> n" "8 \<le> k" "k < n" "K \<subseteq> {3, 4}"
  shows "wk ds n K (sub2_code k) 4 5"
proof -
  have "wk ds n K ''[-<->]'' (Suc 5) (Suc 5)"
    by (rule wk_sub) (use assms in auto)
  then have s: "wk ds n K ''[-<->]'' 6 6" by (simp add: eval_nat_numeral)
  show ?thesis unfolding sub2_code_def
    by (intro wk_append[OF wk_pm] wk_append[OF wk_cp] wk_append[OF s] wk_pm; use assms in auto)
qed

lemma wk_branch_tail:
  assumes "0 < ds" "15 \<le> n" "8 \<le> k" "k < n"
  shows "wk ds n {} (branch_tail k) 3 2"
proof -
  have b1: "wk ds n {3} (sub1_code k @ ''\<newline>'' @ ''+'' @ mv_code 5 0 @ pm 5 3) 3 3"
    by (intro wk_append[OF wk_sub1] wk_append[OF wk_newline] wk_append[OF wk_inc]
        wk_append[OF wk_mv] wk_pm; use assms in auto)
  have l1: "wk ds n {} (CHR ''['' # ((sub1_code k @ ''\<newline>'' @ ''+'' @ mv_code 5 0 @ pm 5 3) @ ''-'') @ '']'') 3 3"
    by (rule wk_countdown_post) (use assms b1 in auto)
  have b2: "wk ds n {4} (sub2_code k @ mv_code 5 1 @ pm 5 4) 4 4"
    by (intro wk_append[OF wk_sub2] wk_append[OF wk_mv] wk_pm; use assms in auto)
  have l2: "wk ds n {} (CHR ''['' # ((sub2_code k @ mv_code 5 1 @ pm 5 4) @ ''-'') @ '']'') 4 4"
    by (rule wk_countdown_post) (use assms b2 in auto)
  show ?thesis unfolding branch_tail_def
    by (intro wk_append[OF wk_newline] wk_append[OF wk_cp] wk_append[OF wk_pm]
        wk_append[OF wk_inot] wk_append[OF l1] wk_append[OF l2] wk_pm; use assms in auto)
qed

lemma wk_gt_tail:
  assumes "0 < ds" "15 \<le> n"
  shows "wk ds n {} gt_tail 3 2"
  unfolding gt_tail_def
  by (intro wk_append[OF wk_newline] wk_append[OF wk_mv] wk_pm; use assms in auto)

lemma ureg_checked:
  assumes "check_ureg r = Inr u"
  shows "\<exists>k. address_of r = Inr k \<and> 8 \<le> k \<and> k < 15"
proof -
  from assms have r: "r \<in> set URegisters" by (auto simp: check_ureg_def split: if_splits)
  from ureg_address_ex[OF r] obtain k where k: "address_of r = Inr k" by blast
  with ureg_address[OF r k] show ?thesis by blast
qed

lemma catE2: "catE [Inr a, Inr b] = Inr (a @ b)"
  by (simp add: bindE_def)

lemma catE_Cons_Inr: "catE (Inr a # ps) = bindE (catE ps) (\<lambda>r. Inr (a @ r))"
  by (simp add: bindE_def)

lemma out_body:
  assumes "out i ls n = Inr body"
  shows "\<exists>k. 8 \<le> k \<and> k < 15 \<and> body = pm 2 k @ ''.'' @ pm k 2"
proof -
  let ?r = "val (operands i ! 0)"
  from assms have c: "check_ureg ?r = Inr ()"
    and b: "catE [ptr ''IC'' ?r, Inr ''.'', ptr ?r ''IC''] = Inr body"
    by (auto simp del: catE.simps simp: out_def Let_def bindE_def split: if_splits sum.splits)
  from ureg_checked[OF c] obtain k where k: "address_of ?r = Inr k" "8 \<le> k" "k < 15" by blast
  have "body = pm 2 k @ ''.'' @ pm k 2"
    using b by (simp add: ptr_pm[OF scratch_address(3) k(1)] ptr_pm[OF k(1) scratch_address(3)] bindE_def)
  then show ?thesis using k by blast
qed

lemma mov_body:
  assumes "mov i ls n = Inr body"
  shows "\<exists>k j. 8 \<le> k \<and> k < 15 \<and> body = pm 2 k @ ''[-]'' @ replicate j CHR ''+'' @ pm k 2"
proof -
  let ?r = "val (operands i ! 0)"
  let ?v = "val (operands i ! 1)"
  from assms have c: "check_ureg ?r = Inr ()"
    and b: "catE [ptr ''IC'' ?r, Inr clr,
                  bindE (py_int ?v) (\<lambda>n. Inr (replicate (nat n) CHR ''+'')), ptr ?r ''IC''] = Inr body"
    by (auto simp del: catE.simps simp: mov_def Let_def bindE_def split: if_splits sum.splits)
  from ureg_checked[OF c] obtain k where k: "address_of ?r = Inr k" "8 \<le> k" "k < 15" by blast
  from b obtain v where v: "py_int ?v = Inr v"
    by (cases "py_int ?v") (auto simp: bindE_def ptr_pm[OF scratch_address(3) k(1)])
  have "body = pm 2 k @ ''[-]'' @ replicate (nat v) CHR ''+'' @ pm k 2"
    using b v by (simp add: ptr_pm[OF scratch_address(3) k(1)] ptr_pm[OF k(1) scratch_address(3)]
        bindE_def clr_def)
  then show ?thesis using k by blast
qed

lemma add_body:
  assumes "add i ls n = Inr body"
  shows "(\<exists>k j. 8 \<le> k \<and> k < 15 \<and> body = pm 2 k @ replicate j CHR ''+'' @ pm k 2)
     \<or> (\<exists>s d. 8 \<le> s \<and> s < 15 \<and> 8 \<le> d \<and> d < 15
          \<and> body = pm 2 s @ mv_code s 3 @ pm s 3 @ (CHR ''['' # fan_body 3 s d @ '']'') @ pm 3 2)"
proof -
  let ?r = "val (operands i ! 0)"
  let ?v = "val (operands i ! Suc 0)"
  from assms have c: "check_ureg ?r = Inr ()"
    by (auto simp del: catE.simps simp: add_def Let_def bindE_def split: if_splits sum.splits)
  from ureg_checked[OF c] obtain d where d: "address_of ?r = Inr d" "8 \<le> d" "d < 15" by blast
  from assms c have l: "length (operands i) = 2"
    by (auto simp del: catE.simps simp: add_def split: if_splits)
  show ?thesis
  proof (cases "otype (operands i ! Suc 0)")
    case REFERENCE
    from assms l c REFERENCE have cs: "check_ureg ?v = Inr ()"
      by (auto simp del: catE.simps simp: add_def Let_def bindE_def split: sum.splits)
    from ureg_checked[OF cs] obtain s where s: "address_of ?v = Inr s" "8 \<le> s" "s < 15" by blast
    have "body = pm 2 s @ mv_code s 3 @ pm s 3 @ (CHR ''['' # fan_body 3 s d @ '']'') @ pm 3 2"
      using assms l c cs REFERENCE
      by (simp add: add_def Let_def bindE_def fan_body_def
          ptr_pm[OF scratch_address(4) s(1)] ptr_pm[OF s(1) d(1)] ptr_pm[OF d(1) scratch_address(4)]
          ptr_pm[OF scratch_address(3) s(1)] mv_eq[OF s(1) scratch_address(4)]
          ptr_pm[OF s(1) scratch_address(4)] ptr_pm[OF scratch_address(4) scratch_address(3)])
    then show ?thesis using s d by blast
  next
    case ADDRESS
    then show ?thesis using assms l c by (simp add: add_def Let_def bindE_def)
  next
    case CONSTANT
    from assms l c CONSTANT have b: "catE [ptr ''IC'' ?r,
        bindE (py_int ?v) (\<lambda>n. Inr (replicate (nat n) CHR ''+'')), ptr ?r ''IC''] = Inr body"
      by (simp del: catE.simps add: add_def Let_def bindE_def)
    from b obtain v where v: "py_int ?v = Inr v"
      by (cases "py_int ?v") (auto simp: bindE_def ptr_pm[OF scratch_address(3) d(1)])
    have "body = pm 2 d @ replicate (nat v) CHR ''+'' @ pm d 2"
      using b v by (simp add: ptr_pm[OF scratch_address(3) d(1)] ptr_pm[OF d(1) scratch_address(3)]
          bindE_def)
    then show ?thesis using d by blast
  qed
qed

lemma address_of_Inl_ptr: "address_of a = Inl e \<Longrightarrow> ptr a b = Inl e"
  by (simp add: ptr_def bindE_def)

lemma address_of_Inl_ptr2: "address_of b = Inl e \<Longrightarrow> \<exists>e'. ptr a b = Inl e'"
  by (cases "address_of a") (auto simp: ptr_def bindE_def)

lemma gt_setup_addresses:
  assumes "gt_setup a b = Inr s"
  shows "\<exists>ka kb. address_of a = Inr ka \<and> address_of b = Inr kb"
proof -
  from assms obtain x where "ptr a b = Inr x"
    by (auto simp: gt_setup_def bindE_def split: sum.splits)
  then show ?thesis
    by (cases "address_of a"; cases "address_of b") (auto simp: ptr_def bindE_def)
qed

lemma gt_body:
  assumes "gt i ls n = Inr body"
  shows "\<exists>a b. a < 15 \<and> b < 15
     \<and> body = pm 2 8 @ ''[-]'' @ pm 8 2 @ pm 2 a @ ''\<newline>'' @ gt_setup_code a b @ ''\<newline>''
          @ gt_code @ gt_tail"
proof -
  from assms obtain oa ob where o: "operand_at i 0 = Inr oa" "operand_at i 1 = Inr ob"
    by (auto simp: gt_def bindE_def split: sum.splits)
  let ?a = "val oa" and ?b = "val ob"
  from assms o have b: "catE [clear_cond ''IC'', ptr ''IC'' ?a, Inr ''\<newline>'', gt_setup ?a ?b,
      Inr ''\<newline>'', Inr gt_code, Inr ''\<newline>'', mv ''TR1'' ''CRR'', Inr ''\<newline>'',
      ptr ''TR1'' ''IC''] = Inr body"
    by (simp del: catE.simps add: gt_def bindE_def Let_def)
  have cc: "clear_cond ''IC'' = Inr (pm 2 8 @ ''[-]'' @ pm 8 2)"
    by (simp add: clear_cond_def ptr_pm[OF scratch_address(3) scratch_address(9)]
        ptr_pm[OF scratch_address(9) scratch_address(3)] bindE_def)
  from b cc obtain s where s: "gt_setup ?a ?b = Inr s"
    by (cases "gt_setup ?a ?b"; cases "ptr ''IC'' ?a") (auto simp: bindE_def)
  from gt_setup_addresses[OF s] obtain ka kb where
    k: "address_of ?a = Inr ka" "address_of ?b = Inr kb" by blast
  have "body = pm 2 8 @ ''[-]'' @ pm 8 2 @ pm 2 ka @ ''\<newline>'' @ gt_setup_code ka kb @ ''\<newline>''
          @ gt_code @ gt_tail"
    using b by (simp add: cc gt_setup_eq[OF k] ptr_pm[OF scratch_address(3) k(1)]
        mv_eq[OF scratch_address(4) scratch_address(9)]
        ptr_pm[OF scratch_address(4) scratch_address(3)] bindE_def gt_tail_def)
  then show ?thesis using address_ofD(1)[OF k(1)] address_ofD(1)[OF k(2)] by blast
qed

lemma branch_reg_body:
  assumes "r \<in> set URegisters" "address_of r = Inr k"
  shows "branch_reg r = Inr (branch_reg_code k)"
proof -
  note a = scratch_address
  have p: "pm 6 5 = ''<''" "pm 3 4 = ''>''" by (simp_all add: pm_def)
  show ?thesis
    by (simp add: branch_reg_def branch_reg_code_def branch_tail_def sub1_code_def sub2_code_def
        bindE_def p
        gt_setup_eq[OF a(10) assms(2)] inot_eq[OF a(6) a(5)]
        cp_eq[OF a(4) a(6) a(7)] cp_eq[OF a(10) a(6) a(8)] cp_eq[OF a(10) a(7) a(8)]
        cp_eq[OF assms(2) a(7) a(8)] cp_eq[OF assms(2) a(6) a(8)]
        mv_eq[OF a(6) a(1)] mv_eq[OF a(6) a(2)]
        ptr_pm[OF a(3) a(10)] ptr_pm[OF a(4) a(6)] ptr_pm[OF a(6) a(4)] ptr_pm[OF a(4) a(10)]
        ptr_pm[OF a(10) assms(2)] ptr_pm[OF assms(2) a(7)] ptr_pm[OF a(5) a(10)]
        ptr_pm[OF a(6) a(5)] ptr_pm[OF a(5) a(3)])
qed

lemma branch_body:
  assumes "branch i ls n = Inr body"
  shows "(\<exists>j. body = pm 2 1 @ replicate j CHR ''+'' @ pm 1 2)
     \<or> (\<exists>j. body = pm 2 0 @ replicate j CHR ''+'' @ pm 0 2)
     \<or> (\<exists>k. 8 \<le> k \<and> k < 15 \<and> body = branch_reg_code k)"
proof -
  let ?r = "val (operands i ! 0)"
  from assms have l: "length (operands i) = 1"
    by (auto simp del: catE.simps simp: branch_def split: if_splits)
  show ?thesis
  proof (cases "?r \<in> set URegisters")
    case True
    from ureg_address_ex[OF True] obtain k where k: "address_of ?r = Inr k" by blast
    have "body = branch_reg_code k"
      using assms l True branch_reg_body[OF True k] by (simp add: branch_def Let_def)
    then show ?thesis using ureg_address[OF True k] by blast
  next
    case False
    from assms l False obtain lbl where lb: "ls ?r = Some lbl"
      by (auto simp del: catE.simps simp: branch_def Let_def split: option.splits)
    note a = scratch_address
    show ?thesis
    proof (cases "ip lbl > n")
      case True
      have "body = pm 2 1 @ replicate (nat (ip lbl - n)) CHR ''+'' @ pm 1 2"
        using assms l False lb True
        by (simp add: branch_def Let_def inc_def ptr_pm[OF a(3) a(2)] ptr_pm[OF a(2) a(3)] bindE_def)
      then show ?thesis by blast
    next
      case F: False
      have "body = pm 2 0 @ replicate (nat (n - ip lbl + 1)) CHR ''+'' @ pm 0 2"
        using assms l False lb F
        by (simp add: branch_def Let_def inc_def ptr_pm[OF a(3) a(1)] ptr_pm[OF a(1) a(3)] bindE_def)
      then show ?thesis by blast
    qed
  qed
qed

lemma wk_run:
  assumes "wk ds n K code q q'" "wfm ds n mem"
  shows "\<exists>mem'. runs code ds mem q mem' q'"
proof -
  from wkD[OF assms, where os = "[]"] obtain mem' os' where
    "bsem ds (int n) code (mem, int q, []) (mem', int q', os')" by metis
  then show ?thesis using bsem_runs[of ds mem code q mem' q' os'] assms(2) by (auto simp: wfm_def)
qed

lemma contract_simple:
  assumes "0 < ds" "15 \<le> n" "k < n" "j = 0 \<or> k \<noteq> 2"
  shows "wk ds n {} (pm 2 k @ replicate j CHR ''+'' @ pm k 2) 2 2"
    "wk ds n {} (pm 2 k @ ''.'' @ pm k 2) 2 2"
    "wk ds n {} (pm 2 k @ ''[-]'' @ replicate j CHR ''+'' @ pm k 2) 2 2"
  by (intro wk_append[OF wk_pm] wk_append[OF wk_rep_inc] wk_append[OF wk_out] wk_append[OF wk_clr]
      wk_pm; use assms in auto)+

lemma contract_add_ref:
  assumes "0 < ds" "15 \<le> n" "8 \<le> s" "s < 15" "8 \<le> d" "d < 15"
  shows "wk ds n {} (pm 2 s @ mv_code s 3 @ pm s 3 @ (CHR ''['' # fan_body 3 s d @ '']'') @ pm 3 2) 2 2"
  by (intro wk_append[OF wk_pm] wk_append[OF wk_mv] wk_append[OF wk_fan] wk_pm; use assms in auto)

lemma contract_gt:
  assumes "wfm ds n mem" "15 \<le> n" "a < 15" "b < 15"
    "mem ! 3 = 0" "mem ! 4 = 0" "mem ! 5 = 0" "mem ! 6 = 0" "mem ! 7 = 0"
  shows "\<exists>mem'. runs (pm 2 8 @ ''[-]'' @ pm 8 2 @ pm 2 a @ ''\<newline>'' @ gt_setup_code a b @ ''\<newline>''
          @ gt_code @ gt_tail) ds mem 2 mem' 2"
proof -
  have ds: "0 < ds" using wfm_nth[OF assms(1), of 0] assms(2) by linarith
  have len: "length mem = n" using assms(1) by (simp add: wfm_def)
  let ?ms = "int n"
  let ?m1 = "mem[8 := 0]"
  have w1: "wfm ds n ?m1" using assms(1) ds by (intro wfm_update) auto
  have 1: "bsem ds ?ms (pm 2 8) (mem, int 2, []) (mem, int 8, [])" by (rule bsem_pm)
  have 2: "bsem ds ?ms ''[-]'' (mem, int 8, []) (?m1, int 8, [])"
    by (rule bsem_clr) (use assms(2) len ds wfm_nth[OF assms(1), of 8] in auto)
  have 3: "bsem ds ?ms (pm 8 2) (?m1, int 8, []) (?m1, int 2, [])" by (rule bsem_pm)
  have 4: "bsem ds ?ms (pm 2 a) (?m1, int 2, []) (?m1, int a, [])" by (rule bsem_pm)
  have 5: "bsem ds ?ms ''\<newline>'' (?m1, int a, []) (?m1, int a, [])" by (rule bsem_skip) simp
  from gt_setup_gen[OF w1, of a b "[]"] assms ds obtain m2 where
    6: "bsem ds ?ms (gt_setup_code a b) (?m1, int a, []) (m2, 7, [])"
    and w2: "wfm ds n m2" and z2: "m2 ! 4 = 0" "m2 ! 6 = 0" "m2 ! 7 = m2 ! 3"
    by auto
  have 7: "bsem ds ?ms ''\<newline>'' (m2, 7, []) (m2, 7, [])" by (rule bsem_skip) simp
  from gt_code_gen[OF w2 _ z2, of "[]"] assms(2) obtain m3 where
    8: "bsem ds ?ms gt_code (m2, 7, []) (m3, 3, [])" and w3: "wfm ds n m3" by auto
  from wkD[OF wk_gt_tail[OF ds assms(2)] w3, where os = "[]"] obtain m4 o4 where
    9: "bsem ds ?ms gt_tail (m3, int 3, []) (m4, int 2, o4)" by metis
  have "bsem ds ?ms (pm 2 8 @ ''[-]'' @ pm 8 2 @ pm 2 a @ ''\<newline>'' @ gt_setup_code a b @ ''\<newline>''
          @ gt_code @ gt_tail) (mem, int 2, []) (m4, int 2, o4)"
    using 8 9
    by (intro bsem_append[OF 1] bsem_append[OF 2] bsem_append[OF 3] bsem_append[OF 4]
        bsem_append[OF 5] bsem_append[OF 6] bsem_append[OF 7] bsem_append[of _ _ gt_code]) auto
  then show ?thesis using bsem_runs[of ds mem _ 2 m4 2 o4] len by auto
qed

lemma contract_branch_reg:
  assumes "wfm ds n mem" "15 \<le> n" "8 \<le> k" "k < 15"
    "mem ! 3 = 0" "mem ! 4 = 0" "mem ! 5 = 0" "mem ! 6 = 0" "mem ! 7 = 0"
  shows "\<exists>mem'. runs (branch_reg_code k) ds mem 2 mem' 2"
proof -
  have ds: "0 < ds" using wfm_nth[OF assms(1), of 0] assms(2) by linarith
  have len: "length mem = n" using assms(1) by (simp add: wfm_def)
  let ?ms = "int n"
  have 1: "bsem ds ?ms (pm 2 9) (mem, int 2, []) (mem, int 9, [])" by (rule bsem_pm)
  from gt_setup_gen[OF assms(1), of 9 k "[]"] assms ds obtain m2 where
    2: "bsem ds ?ms (gt_setup_code 9 k) (mem, int 9, []) (m2, 7, [])"
    and w2: "wfm ds n m2" and z2: "m2 ! 4 = 0" "m2 ! 6 = 0" "m2 ! 7 = m2 ! 3"
    by auto
  from gt_code_gen[OF w2 _ z2, of "[]"] assms(2) obtain m3 where
    3: "bsem ds ?ms gt_code (m2, 7, []) (m3, 3, [])" and w3: "wfm ds n m3" by auto
  from wkD[OF wk_branch_tail[OF ds assms(2,3)] w3, where os = "[]"] assms(2,4) obtain m4 o4 where
    4: "bsem ds ?ms (branch_tail k) (m3, int 3, []) (m4, int 2, o4)" by (metis less_le_trans)
  have "bsem ds ?ms (branch_reg_code k) (mem, int 2, []) (m4, int 2, o4)"
    unfolding branch_reg_code_def using 3 4
    by (intro bsem_append[OF 1] bsem_append[OF 2] bsem_append[of _ _ gt_code]) auto
  then show ?thesis using bsem_runs[of ds mem _ 2 m4 2 o4] len by auto
qed


section \<open>The nesting of the block envelopes\<close>

subsection \<open>Every emitted block head is balanced\<close>

lemma bal_mv_code: "bal (mv_code a b)"
  unfolding mv_code_def by (rule bal_loop[OF bal_mv_body])

lemma bal_fan_loop: "bal (CHR ''['' # fan_body x y z @ '']'')"
  by (rule bal_loop[OF bal_fan_body])

lemma bal_cp_code: "bal (cp_code s d t)"
  unfolding cp_code_def by (intro bal_append bal_fan_loop bal_pm bal_mv_code)

lemma bal_gt_setup_code: "bal (gt_setup_code a b)"
  unfolding gt_setup_code_def by (intro bal_append bal_cp_code bal_pm)

lemma bal_gt_code: "bal gt_code"
  by (simp add: gt_code_def bal_def parse_def)

lemma bal_clear: "bal ''[-]''"
  by (simp add: bal_def parse_def)

lemma bal_newline: "bal ''\<newline>''"
  by (simp add: bal_def parse_def)

lemma bal_gt_tail: "bal gt_tail"
  unfolding gt_tail_def by (intro bal_append bal_newline bal_mv_code bal_pm)

lemma bal_inot_code: "bal (inot_code a d)"
proof -
  have e: "inot_code a d = pm a d @ ''+'' @ pm d a @ (CHR ''['' # (''[-]'' @ pm a d @ ''-'' @ pm d a) @ '']'')"
    by (simp add: inot_code_def)
  have p: "bal ''+''" "bal ''-''" by (simp_all add: bal_def parse_def)
  show ?thesis
    unfolding e by (intro bal_append bal_loop bal_pm bal_clear p)
qed

lemma bal_sub_code: "bal (sub1_code k)" "bal (sub2_code k)"
proof -
  have l: "bal ''[-<->]''" by (simp add: bal_def parse_def)
  show "bal (sub1_code k)"
    unfolding sub1_code_def by (intro bal_append bal_pm bal_cp_code l)
  show "bal (sub2_code k)"
    unfolding sub2_code_def by (intro bal_append bal_pm bal_cp_code l)
qed

lemma bal_branch_tail: "bal (branch_tail k)"
proof -
  have p: "bal ''+''" "bal ''-''" by (simp_all add: bal_def parse_def)
  show ?thesis
    unfolding branch_tail_def
    by (intro bal_append bal_loop bal_pm bal_cp_code bal_mv_code bal_inot_code bal_sub_code
        bal_newline p)
qed

lemma bal_branch_reg_code: "bal (branch_reg_code k)"
  unfolding branch_reg_code_def
  by (intro bal_append bal_pm bal_gt_setup_code bal_gt_code bal_branch_tail)

lemma IPtr_bal:
  assumes "IPtr nm = Some f" "f i ls n = Inr body"
  shows "bal body"
proof -
  have dot: "bal ''.''" by (simp add: bal_def parse_def)
  have plus: "bal (replicate j CHR ''+'')" for j by (rule bal_replicate) simp_all
  have s1: "bal (pm 2 k @ replicate j CHR ''+'' @ pm k 2)" for k j
    by (intro bal_append bal_pm plus)
  have s2: "bal (pm 2 s @ mv_code s 3 @ pm s 3 @ (CHR ''['' # fan_body 3 s d @ '']'') @ pm 3 2)" for s d
    by (intro bal_append bal_pm bal_mv_code bal_fan_loop)
  have s3: "bal (pm 2 k @ ''[-]'' @ replicate j CHR ''+'' @ pm k 2)" for k j
    by (intro bal_append bal_pm plus bal_clear)
  have s4: "bal (pm 2 k @ ''.'' @ pm k 2)" for k
    by (intro bal_append bal_pm dot)
  have s5: "bal (pm 2 8 @ ''[-]'' @ pm 8 2 @ pm 2 a @ ''\<newline>'' @ gt_setup_code a b @ ''\<newline>''
          @ gt_code @ gt_tail)" for a b
    by (intro bal_append bal_pm bal_clear bal_newline bal_gt_setup_code bal_gt_code bal_gt_tail)
  from assms(1) consider "f = add" | "f = mov" | "f = out" | "f = gt" | "f = branch"
    by (auto simp: IPtr_def split: if_splits)
  then show ?thesis
  proof cases
    case 1
    from add_body[OF assms(2)[unfolded 1]] show ?thesis using s1 s2 by blast
  next
    case 2
    from mov_body[OF assms(2)[unfolded 2]] show ?thesis using s3 by blast
  next
    case 3
    from out_body[OF assms(2)[unfolded 3]] show ?thesis using s4 by blast
  next
    case 4
    from gt_body[OF assms(2)[unfolded 4]] show ?thesis using s5 by blast
  next
    case 5
    from branch_body[OF assms(2)[unfolded 5]] show ?thesis using s1 bal_branch_reg_code by blast
  qed
qed

lemma bal_cond:
  assumes "cond body = Inr c" "bal body"
  shows "bal c"
proof -
  note a = scratch_address
  have "c = pm 2 8 @ cp_code 8 2 3 @ pm 8 2 @ (CHR ''['' # (CHR ''-'' # body) @ '']'')"
    using assms(1)
    by (simp add: cond_def ptr_pm[OF a(3) a(9)] ptr_pm[OF a(9) a(3)] cp_eq[OF a(9) a(3) a(4)]
        bindE_def)
  moreover have "bal (CHR ''-'' # body)" by (rule bal_Cons) (use assms(2) in auto)
  ultimately show ?thesis by (simp only:) (intro bal_append bal_pm bal_cp_code bal_loop)
qed

lemma bal_fjump_wrap:
  assumes "bal c"
  shows "bal (fjump_wrap c)"
proof -
  have e: "fjump_wrap c = ''>+<[>-]>[>]<\<newline>'' @ (CHR ''['' # (''-\<newline>    '' @ c @ ''\<newline>'') @ '']'')
      @ ''\<newline>+<[>-]>[>]<<->[-<+>]<\<newline>''"
    by (simp add: fjump_wrap_def)
  have l: "bal ''>+<[>-]>[>]<\<newline>''" "bal ''-\<newline>    ''" "bal ''\<newline>+<[>-]>[>]<<->[-<+>]<\<newline>''"
    by (simp_all add: bal_def parse_def)
  have i: "bal (''-\<newline>    '' @ c @ ''\<newline>'')"
    by (rule bal_append[OF l(2) bal_append[OF assms bal_newline]])
  show ?thesis unfolding e by (rule bal_append[OF l(1) bal_append[OF bal_loop[OF i] l(3)]])
qed

lemma set_pc_eq: "set_pc k = Inr (pm 1 9 @ ''[-]'' @ replicate (nat k) CHR ''+'' @ pm 9 1 @ ''\<newline>'')"
  by (simp add: set_pc_def ptr_pm[OF scratch_address(2) scratch_address(10)]
      ptr_pm[OF scratch_address(10) scratch_address(2)] bindE_def clr_def inc_def)

lemma wrap_shape:
  assumes "wrap c k = Inr w" "bal c"
  shows "\<exists>sp. set_pc k = Inr sp \<and> w = (sp @ fjump_wrap c) @ bjump_post \<and> bal (sp @ fjump_wrap c)"
proof -
  let ?sp = "pm 1 9 @ ''[-]'' @ replicate (nat k) CHR ''+'' @ pm 9 1 @ ''\<newline>''"
  have "w = (?sp @ fjump_wrap c) @ bjump_post"
    using assms(1) by (simp add: wrap_def set_pc_eq bindE_def)
  moreover have "bal ?sp"
    by (intro bal_append bal_pm bal_clear bal_newline bal_replicate) simp_all
  ultimately show ?thesis using bal_fjump_wrap[OF assms(2)] set_pc_eq[of k] bal_append by blast
qed

lemma assemble_loop_shape:
  "assemble_loop k is ls bf = Inr t \<Longrightarrow>
     \<exists>hs. length hs = length is \<and> t = bf @ concat (map (\<lambda>h. h @ bjump_post) hs)
       \<and> (\<forall>j<length is. bal (hs ! j)
            \<and> (\<exists>c sp. wrap c (k + int j) = Inr (hs ! j @ bjump_post) \<and> set_pc (k + int j) = Inr sp
                  \<and> hs ! j = sp @ fjump_wrap c))"
proof (induction "is" arbitrary: k bf)
  case Nil
  then show ?case by simp
next
  case (Cons i "is")
  have "\<exists>c w. bal c \<and> wrap c k = Inr w \<and> assemble_loop (k + 1) is ls (bf @ w) = Inr t"
  proof (cases "iname i \<noteq> [] \<and> last (iname i) = CHR ''C'' \<and> butlast (iname i) \<in> dom IPtr")
    case True
    then obtain f where f: "IPtr (butlast (iname i)) = Some f" by auto
    from Cons.prems True f obtain istr c w where
      1: "f i ls k = Inr istr" and 2: "cond istr = Inr c" and 3: "wrap c k = Inr w"
      and 4: "assemble_loop (k + 1) is ls (bf @ w) = Inr t"
      by (auto simp: bindE_def split: sum.splits)
    from bal_cond[OF 2 IPtr_bal[OF f 1]] 3 4 show ?thesis by blast
  next
    case False
    with Cons.prems have d: "iname i \<in> dom IPtr" by (auto split: if_splits)
    then obtain f where f: "IPtr (iname i) = Some f" by auto
    from Cons.prems False d f obtain istr w where
      1: "f i ls k = Inr istr" and 3: "wrap istr k = Inr w"
      and 4: "assemble_loop (k + 1) is ls (bf @ w) = Inr t"
      by (auto simp: bindE_def split: sum.splits if_splits)
    from IPtr_bal[OF f 1] 3 4 show ?thesis by blast
  qed
  then obtain c w where c: "bal c" and w: "wrap c k = Inr w"
    and r: "assemble_loop (k + 1) is ls (bf @ w) = Inr t" by blast
  from wrap_shape[OF w c] obtain sp where sp: "set_pc k = Inr sp"
    and we: "w = (sp @ fjump_wrap c) @ bjump_post" and b: "bal (sp @ fjump_wrap c)" by blast
  from Cons.IH[OF r] obtain hs where l: "length hs = length is"
    and t: "t = (bf @ w) @ concat (map (\<lambda>h. h @ bjump_post) hs)"
    and a: "\<forall>j<length is. bal (hs ! j)
            \<and> (\<exists>c sp. wrap c (k + 1 + int j) = Inr (hs ! j @ bjump_post)
                  \<and> set_pc (k + 1 + int j) = Inr sp \<and> hs ! j = sp @ fjump_wrap c)" by blast
  let ?hs = "(sp @ fjump_wrap c) # hs"
  have "length ?hs = length (i # is)" using l by simp
  moreover have "t = bf @ concat (map (\<lambda>h. h @ bjump_post) ?hs)" using t we by simp
  moreover have "bal (?hs ! j)
            \<and> (\<exists>c sp. wrap c (k + int j) = Inr (?hs ! j @ bjump_post) \<and> set_pc (k + int j) = Inr sp
                  \<and> ?hs ! j = sp @ fjump_wrap c)" if "j < length (i # is)" for j
  proof (cases j)
    case 0
    then show ?thesis using b w we sp by auto
  next
    case (Suc j')
    then have "j' < length is" using that by simp
    with a have "bal (hs ! j')
            \<and> (\<exists>c sp. wrap c (k + 1 + int j') = Inr (hs ! j' @ bjump_post)
                  \<and> set_pc (k + 1 + int j') = Inr sp \<and> hs ! j' = sp @ fjump_wrap c)" by blast
    moreover have "k + 1 + int j' = k + int j" using Suc by simp
    ultimately show ?thesis using Suc by simp
  qed
  ultimately show ?case by blast
qed

lemma nest_blocks:
  "concat (replicate (length hs) ''[-'') @ ''\<newline>>\<newline>'' @ concat (map (\<lambda>h. h @ ''<]>\<newline>'') hs)
     = nest (rev hs)"
proof (induction hs rule: rev_induct)
  case Nil
  then show ?case by simp
next
  case (snoc x xs)
  have "concat (replicate (length (xs @ [x])) ''[-'') @ ''\<newline>>\<newline>''
          @ concat (map (\<lambda>h. h @ ''<]>\<newline>'') (xs @ [x]))
      = ''[-'' @ (concat (replicate (length xs) ''[-'') @ ''\<newline>>\<newline>''
          @ concat (map (\<lambda>h. h @ ''<]>\<newline>'') xs)) @ x @ ''<]>\<newline>''"
    by simp
  also have "\<dots> = nest (rev (xs @ [x]))" unfolding snoc.IH by simp
  finally show ?case .
qed

lemma concat_replicate_add:
  "concat (replicate (a + b) s) = concat (replicate a s) @ concat (replicate b s)"
  by (simp add: replicate_add)

lemma nest_blocks_at:
  assumes "k < length hs"
  shows "concat (replicate (length hs) ''[-'') @ ''\<newline>>\<newline>'' @ concat (map (\<lambda>h. h @ ''<]>\<newline>'') hs)
     = concat (replicate (length hs - Suc k) ''[-'')
        @ (CHR ''['' # (CHR ''-'' # nest (rev (take k hs)) @ hs ! k @ ''<'') @ '']>\<newline>'')
        @ concat (map (\<lambda>h. h @ ''<]>\<newline>'') (drop (Suc k) hs))"
proof -
  let ?f = "\<lambda>h. h @ ''<]>\<newline>''"
  let ?a = "take (Suc k) hs" and ?b = "drop (Suc k) hs"
  have la: "length ?a = Suc k" using assms by simp
  have n: "length hs = (length hs - Suc k) + length ?a" using assms by simp
  have "concat (replicate (length hs) ''[-'') @ ''\<newline>>\<newline>'' @ concat (map ?f hs)
      = concat (replicate (length hs - Suc k) ''[-'')
          @ (concat (replicate (length ?a) ''[-'') @ ''\<newline>>\<newline>'' @ concat (map ?f ?a))
          @ concat (map ?f ?b)"
    by (subst n, subst concat_replicate_add, subst (3) append_take_drop_id[of "Suc k" hs, symmetric])
       (simp only: map_append concat_append append_assoc)
  also have "concat (replicate (length ?a) ''[-'') @ ''\<newline>>\<newline>'' @ concat (map ?f ?a) = nest (rev ?a)"
    by (rule nest_blocks)
  also have "rev ?a = hs ! k # rev (take k hs)"
    using assms by (simp add: take_Suc_conv_app_nth)
  finally show ?thesis by simp
qed

lemma bal_nest: "\<forall>h\<in>set hs. bal h \<Longrightarrow> bal (nest hs)"
proof (induction hs)
  case Nil
  then show ?case by (simp add: bal_def parse_def)
next
  case (Cons h hs)
  have l: "bal ''<''" by (simp add: bal_def parse_def)
  have h: "bal h" "bal (nest hs)" using Cons by auto
  have 1: "bal (CHR ''-'' # nest hs @ h @ ''<'')"
    by (rule bal_Cons[OF _ _ bal_append[OF h(2) bal_append[OF h(1) l]]]) simp_all
  have "nest (h # hs) = (CHR ''['' # (CHR ''-'' # nest hs @ h @ ''<'') @ '']'') @ ''>\<newline>''" by simp
  moreover have "bal ''>\<newline>''" by (simp add: bal_def parse_def)
  ultimately show ?case using bal_loop[OF 1] bal_append by metis
qed

subsection \<open>The compiled prologue\<close>

lemma join_assoc: "join a (join b c) = join (join a b) c"
  by (induction c) (simp_all add: join_padd join_pmv)

lemma bsize_padd: "bsize x \<le> bsize (padd x d)"
  by (cases x) auto

lemma bsize_pmv: "bsize x \<le> bsize (pmv x d)"
  by (cases x) auto

lemma bsize_join: "bsize p \<le> bsize (join p q)"
proof (induction q)
  case (SAdd q d)
  then show ?case using bsize_padd[of "join p q" d] by simp
next
  case (SMv q d)
  then show ?case using bsize_pmv[of "join p q" d] by simp
qed auto

lemma take_snoc: "n \<le> length xs \<Longrightarrow> take n (xs @ ys) = take n xs"
  by simp

lemma take_flat_padd:
  assumes "n \<le> bsize x - 1"
  shows "take n (flat k (padd x d)) = take n (flat k x)"
proof (cases "\<exists>p e. x = SAdd p e")
  case True
  then obtain p e where x: "x = SAdd p e" by blast
  then have "n \<le> length (flat k p)" using assms by simp
  then show ?thesis unfolding x by (simp only: padd.simps flat.simps take_snoc)
next
  case False
  then have "padd x d = SAdd x d" by (cases x) auto
  moreover have "n \<le> length (flat k x)" using assms by simp
  ultimately show ?thesis by (simp only: flat.simps take_snoc)
qed

lemma take_flat_pmv:
  assumes "n \<le> bsize x - 1"
  shows "take n (flat k (pmv x d)) = take n (flat k x)"
proof (cases "\<exists>p e. x = SMv p e")
  case True
  then obtain p e where x: "x = SMv p e" by blast
  then have "n \<le> length (flat k p)" using assms by simp
  then show ?thesis unfolding x by (simp only: pmv.simps flat.simps take_snoc)
next
  case False
  then have "pmv x d = SMv x d" by (cases x) auto
  moreover have "n \<le> length (flat k x)" using assms by simp
  ultimately show ?thesis by (simp only: flat.simps take_snoc)
qed

lemma take_flat_join:
  "take (bsize p - 1) (flat k (join p q)) = take (bsize p - 1) (flat k p)"
proof (induction q)
  case Emp
  then show ?case by simp
next
  case (SAdd q d)
  have "bsize p - 1 \<le> bsize (join p q) - 1" using bsize_join[of p q] by simp
  from take_flat_padd[OF this, of k d] have
    "take (bsize p - 1) (flat k (join p (SAdd q d))) = take (bsize p - 1) (flat k (join p q))"
    by (simp only: join.simps)
  then show ?case by (simp only: SAdd.IH)
next
  case (SMv q d)
  have "bsize p - 1 \<le> bsize (join p q) - 1" using bsize_join[of p q] by simp
  from take_flat_pmv[OF this, of k d] have
    "take (bsize p - 1) (flat k (join p (SMv q d))) = take (bsize p - 1) (flat k (join p q))"
    by (simp only: join.simps)
  then show ?case by (simp only: SMv.IH)
next
  case (SOut q)
  have "bsize p - 1 \<le> length (flat k (join p q))" using bsize_join[of p q] by simp
  from take_snoc[OF this] have
    "take (bsize p - 1) (flat k (join p (SOut q))) = take (bsize p - 1) (flat k (join p q))"
    by (simp only: join.simps flat.simps)
  then show ?case by (simp only: SOut.IH)
next
  case (SDbg q)
  have "bsize p - 1 \<le> length (flat k (join p q))" using bsize_join[of p q] by simp
  from take_snoc[OF this] have
    "take (bsize p - 1) (flat k (join p (SDbg q))) = take (bsize p - 1) (flat k (join p q))"
    by (simp only: join.simps flat.simps)
  then show ?case by (simp only: SDbg.IH)
next
  case (SLoop q b)
  have "bsize p - 1 \<le> length (flat k (join p q))" using bsize_join[of p q] by simp
  from take_snoc[OF this] have
    "take (bsize p - 1) (flat k (join p (SLoop q b))) = take (bsize p - 1) (flat k (join p q))"
    by (simp only: join.simps flat.simps append_assoc)
  then show ?case by (simp only: SLoop.IH)
qed

lemma flat_join_butlast: "\<exists>rest. flat k (join p q) = butlast (flat k p) @ rest"
proof -
  have "flat k (join p q) = take (bsize p - 1) (flat k (join p q)) @ drop (bsize p - 1) (flat k (join p q))"
    by simp
  also have "take (bsize p - 1) (flat k (join p q)) = butlast (flat k p)"
    unfolding butlast_conv_take length_flat by (rule take_flat_join)
  finally show ?thesis by blast
qed

lemma parse_unique_append:
  assumes "parse a = Some p" "parse b = Some q" "parse (a @ b) = Some B"
  shows "B = join p q"
  using parse_append[OF assms(1,2)] assms(3) by simp

lemma layout_loops:
  assumes "\<forall>h\<in>set hs. bal h" "bal r" "parse (CHR ''-'' # nest hs @ r) = Some B"
  shows "\<exists>ts rest. length ts = length hs
     \<and> flat k (join Emp B) = (ADD, - 1) # concat (map (\<lambda>t. [(JZ, int t), (ADD, - 1)]) ts) @ rest"
  using assms
proof (induction hs arbitrary: r B k)
  case Nil
  from Nil.prems(2) obtain R where R: "parse r = Some R" by (auto simp: bal_def)
  have X: "parse ''-\<newline>>\<newline>'' = Some (SMv (SAdd Emp (- 1)) 1)" by (simp add: parse_def)
  have "B = join (SMv (SAdd Emp (- 1)) 1) R"
    using parse_unique_append[OF X R] Nil.prems(3) by simp
  then have "join Emp B = join (SMv (SAdd Emp (- 1)) 1) R"
    by (simp add: join_assoc)
  then show ?case using flat_join_butlast[of k "SMv (SAdd Emp (- 1)) 1" R] by auto
next
  case (Cons h hs)
  let ?E = "CHR ''-'' # nest hs @ (h @ ''<'')"
  have bh: "bal (h @ ''<'')"
    using Cons.prems(1) by (intro bal_append) (simp_all add: bal_def parse_def)
  have "bal ?E"
    by (rule bal_Cons[OF _ _ bal_append[OF bal_nest bh]]) (use Cons.prems(1) in auto)
  then obtain BE where BE: "parse ?E = Some BE" by (auto simp: bal_def)
  from Cons.prems(2) obtain R where R: "parse r = Some R" by (auto simp: bal_def)
  have m: "parse ''-'' = Some (SAdd Emp (- 1))" and g: "parse ''>\<newline>'' = Some (SMv Emp 1)"
    by (simp_all add: parse_def)
  have X: "parse (''-'' @ (CHR ''['' # ?E @ '']'') @ ''>\<newline>'') = Some (SMv (SLoop (SAdd Emp (- 1)) (join Emp BE)) 1)"
    using parse_append[OF m parse_append[OF parse_loop[OF BE] g]] by simp
  have "CHR ''-'' # nest (h # hs) @ r = (''-'' @ (CHR ''['' # ?E @ '']'') @ ''>\<newline>'') @ r" by simp
  then have "B = join (SMv (SLoop (SAdd Emp (- 1)) (join Emp BE)) 1) R"
    using parse_unique_append[OF X R] Cons.prems(3) by simp
  then have jB: "join Emp B = join (SMv (SLoop (SAdd Emp (- 1)) (join Emp BE)) 1) R"
    by (simp add: join_assoc)
  from flat_join_butlast[of k "SMv (SLoop (SAdd Emp (- 1)) (join Emp BE)) 1" R] obtain rest where
    f: "flat k (join Emp B) = (ADD, - 1) # (JZ, int (k + bsize (join Emp BE) + 3))
          # flat (k + 2) (join Emp BE) @ (JMP, int (k + 1)) # rest"
    unfolding jB by (auto simp: butlast_append)
  from Cons.IH[OF _ bh BE, of "k + 2"] Cons.prems(1) obtain ts rest' where
    l: "length ts = length hs"
    and i: "flat (k + 2) (join Emp BE) = (ADD, - 1) # concat (map (\<lambda>t. [(JZ, int t), (ADD, - 1)]) ts) @ rest'"
    by auto
  let ?ts = "(k + bsize (join Emp BE) + 3) # ts"
  have "length ?ts = length (h # hs)" using l by simp
  moreover have "flat k (join Emp B) = (ADD, - 1) # concat (map (\<lambda>t. [(JZ, int t), (ADD, - 1)]) ?ts)
      @ (rest' @ (JMP, int (k + 1)) # rest)"
    unfolding f i by simp
  ultimately show ?case by blast
qed

lemma sim_Nop:
  assumes "map strip_ins P = pre @ (NOP, d) # post" "mstate P ds ms (length pre) t m"
  shows "\<exists>m'. steps m m' \<and> mstate P ds ms (Suc (length pre)) t m'"
proof -
  let ?m' = "pcinc m"
  have "step m = step_result ?m'"
    using assms ins_at[OF assms(1)] pc_in_range[OF assms(1)]
    by (auto simp: step_def mstate_def bindE_def strip_ins_def)
  moreover have "mstate P ds ms (Suc (length pre)) t ?m'"
    using assms(2) by (auto simp: mstate_def pcinc_def pcset_def)
  ultimately show ?thesis using step_result_ok[of ?m'] steps_one by metis
qed

lemma run_openings:
  assumes "map strip_ins P = pre @ concat (map (\<lambda>t. [(JZ, int t), (ADD, - 1)]) ts) @ post"
    "mstate P ds ms (length pre) (mem, 0, os) m" "mem ! 0 = int (length ts)"
    "int (length ts) < ds" "0 < ms" "0 < length mem"
  shows "\<exists>m'. steps m m' \<and> mstate P ds ms (length pre + 2 * length ts) (mem[0 := 0], 0, os) m'"
  using assms
proof (induction ts arbitrary: pre mem m)
  case Nil
  have "mem[0 := 0] = mem" using Nil.prems(3,6) by (simp add: list_update_same_conv)
  then show ?case using Nil.prems(2) steps_refl by auto
next
  case (Cons t ts)
  have P1: "map strip_ins P = pre @ (JZ, int t) # ((ADD, - 1)
      # concat (map (\<lambda>t. [(JZ, int t), (ADD, - 1)]) ts) @ post)"
    using Cons.prems(1) by simp
  from sim_Jz[OF P1 Cons.prems(2)] Cons.prems(3,6) obtain m1 where
    s1: "steps m m1" and m1: "mstate P ds ms (Suc (length pre)) (mem, 0, os) m1"
    by auto
  let ?pre2 = "pre @ [(JZ, int t)]"
  have P2: "map strip_ins P = ?pre2 @ (ADD, - 1)
      # (concat (map (\<lambda>t. [(JZ, int t), (ADD, - 1)]) ts) @ post)"
    using Cons.prems(1) by simp
  have m1': "mstate P ds ms (length ?pre2) (mem, 0, os) m1" using m1 by simp
  from sim_Add[OF P2 m1'] Cons.prems(4,5,6) obtain m2 where
    s2: "steps m1 m2"
    and m2: "mstate P ds ms (Suc (length ?pre2)) (mem[nat 0 := (mem ! nat 0 + - 1) mod ds], 0, os) m2"
    by auto
  let ?mem = "mem[0 := int (length ts)]"
  have v: "(mem ! nat 0 + - 1) mod ds = int (length ts)"
    using Cons.prems(3,4) by simp
  let ?pre3 = "pre @ [(JZ, int t), (ADD, - 1)]"
  have P3: "map strip_ins P = ?pre3 @ concat (map (\<lambda>t. [(JZ, int t), (ADD, - 1)]) ts) @ post"
    using Cons.prems(1) by simp
  have m2': "mstate P ds ms (length ?pre3) (?mem, 0, os) m2" using m2 v by simp
  have "\<exists>m'. steps m2 m' \<and> mstate P ds ms (length ?pre3 + 2 * length ts) (?mem[0 := 0], 0, os) m'"
    by (rule Cons.IH[OF P3 m2']) (use Cons.prems(4,5,6) in auto)
  then obtain m3 where s3: "steps m2 m3"
    and m3: "mstate P ds ms (length ?pre3 + 2 * length ts) (?mem[0 := 0], 0, os) m3" by blast
  have "steps m m3" using s1 s2 s3 steps_trans by blast
  moreover have "mstate P ds ms (length pre + 2 * length (t # ts)) (mem[0 := 0], 0, os) m3"
    using m3 by simp
  ultimately show ?case by blast
qed

lemma pfold_rep_plus:
  "pfold (replicate n CHR ''+'') (SAdd p d # stk) = Some (SAdd p (d + int n) # stk)"
  by (induction n arbitrary: d) (simp_all add: add.assoc)

lemma parse_increments:
  "parse (replicate (Suc j) CHR ''+'' @ ''\<newline>'') = Some (SAdd Emp (int (Suc j)))"
  using pfold_rep_plus[of j Emp 1 "[]"] by (simp add: parse_def pfold_append)

lemma prologue_program:
  assumes "\<forall>h\<in>set hs. bal h" "hs \<noteq> []"
  shows "\<exists>P ts rest. compile (replicate (length hs) CHR ''+'' @ ''\<newline>'' @ nest (rev hs)) = Inr P
     \<and> length ts = length hs \<and> ts ! 0 = length P - 1
     \<and> map strip_ins P = (NOP, 0) # (ADD, int (length hs))
          # concat (map (\<lambda>t. [(JZ, int t), (ADD, - 1)]) ts) @ rest @ [(JMP, 2), (MV, 1)]"
proof -
  from assms(2) obtain h hs' where r: "rev hs = h # hs'" by (cases "rev hs") auto
  then have n: "length hs = Suc (length hs')" by (metis length_Cons length_rev)
  have s: "set hs = insert h (set hs')" using r by (metis list.simps(15) set_rev)
  let ?E = "CHR ''-'' # nest hs' @ (h @ ''<'')"
  have bh: "bal (h @ ''<'')"
    using assms(1) s by (intro bal_append) (simp_all add: bal_def parse_def)
  have bs: "\<forall>h\<in>set hs'. bal h" using assms(1) s by simp
  have "bal ?E" by (rule bal_Cons[OF _ _ bal_append[OF bal_nest[OF bs] bh]]) simp_all
  then obtain BE where BE: "parse ?E = Some BE" by (auto simp: bal_def)
  have g: "parse ''>\<newline>'' = Some (SMv Emp 1)" by (simp add: parse_def)
  let ?p = "SMv (SLoop (SAdd Emp (int (length hs))) (join Emp BE)) 1"
  have t: "replicate (length hs) CHR ''+'' @ ''\<newline>'' @ nest (rev hs)
      = (replicate (Suc (length hs')) CHR ''+'' @ ''\<newline>'') @ (CHR ''['' # ?E @ '']'') @ ''>\<newline>''"
    unfolding r n by simp
  have "parse (replicate (length hs) CHR ''+'' @ ''\<newline>'' @ nest (rev hs)) = Some ?p"
    unfolding t using parse_append[OF parse_increments parse_append[OF parse_loop[OF BE] g]] n
    by simp
  from compile_parse[OF this] obtain P where
    c: "compile (replicate (length hs) CHR ''+'' @ ''\<newline>'' @ nest (rev hs)) = Inr P"
    and P: "map strip_ins P = (NOP, 0) # flat 1 ?p" by auto
  from layout_loops[OF bs bh BE, of 3] obtain ts rest where
    l: "length ts = length hs'"
    and f: "flat 3 (join Emp BE) = (ADD, - 1) # concat (map (\<lambda>t. [(JZ, int t), (ADD, - 1)]) ts) @ rest"
    by blast
  let ?ts = "(bsize (join Emp BE) + 4) # ts"
  have e: "map strip_ins P = (NOP, 0) # (ADD, int (length hs))
          # concat (map (\<lambda>t. [(JZ, int t), (ADD, - 1)]) ?ts) @ rest @ [(JMP, 2), (MV, 1)]"
    using P f by (simp add: numeral_3_eq_3)
  have "length P = bsize (join Emp BE) + 5"
    using arg_cong[OF P, of length] by simp
  then have i0: "?ts ! 0 = length P - 1" by simp
  have l': "length ?ts = length hs" using l n by simp
  show ?thesis
    by (rule exI[of _ P], rule exI[of _ ?ts], rule exI[of _ rest]) (intro conjI c l' i0 e)
qed

lemma prologue_run:
  assumes "map strip_ins P = (NOP, 0) # (ADD, int n)
          # concat (map (\<lambda>t. [(JZ, int t), (ADD, - 1)]) ts) @ post"
    "length ts = n" "0 < m" "ds \<noteq> 0"
  shows "\<exists>m1. steps (new_machine P ds (int m)) m1 \<and> pc m1 = 2 \<and> mp m1 = 0
     \<and> memory m1 = (replicate m 0)[0 := int n mod ds]
     \<and> (int n < ds \<longrightarrow> (\<exists>m2. steps m1 m2 \<and> pc m2 = 2 * int n + 2 \<and> mp m2 = 0
            \<and> memory m2 = replicate m 0))"
proof -
  let ?m0 = "new_machine P ds (int m)"
  let ?f = "\<lambda>t. [(JZ, int t), (ADD, - 1::int)]"
  let ?mem0 = "replicate m (0::int)"
  let ?mem1 = "?mem0[0 := int n mod ds]"
  have P0: "map strip_ins P = [] @ (NOP, 0) # ((ADD, int n) # concat (map ?f ts) @ post)"
    using assms(1) by simp
  have m0: "mstate P ds (int m) (length ([] :: (ISet \<times> int) list)) (?mem0, 0, []) ?m0"
    by (simp add: mstate_def new_machine_def)
  from sim_Nop[OF P0 m0] obtain ma where
    s0: "steps ?m0 ma" and ma: "mstate P ds (int m) (Suc 0) (?mem0, 0, []) ma" by auto
  have P1: "map strip_ins P = [(NOP, 0)] @ (ADD, int n) # (concat (map ?f ts) @ post)"
    using assms(1) by simp
  have ma': "mstate P ds (int m) (length [(NOP, 0::int)]) (?mem0, 0, []) ma" using ma by simp
  from sim_Add[OF P1 ma'] assms(3,4) obtain m1 where
    s1: "steps ma m1"
    and m1: "mstate P ds (int m) (Suc (length [(NOP, 0::int)]))
        (?mem0[nat 0 := (?mem0 ! nat 0 + int n) mod ds], 0, []) m1"
    by auto
  have m1': "mstate P ds (int m) 2 (?mem1, 0, []) m1" using m1 assms(3) by (simp add: numeral_2_eq_2)
  have a: "steps ?m0 m1" using s0 s1 steps_trans by blast
  have b: "pc m1 = 2" "mp m1 = 0" "memory m1 = ?mem1" using m1' by (simp_all add: mstate_def)
  have "\<exists>m2. steps m1 m2 \<and> pc m2 = 2 * int n + 2 \<and> mp m2 = 0 \<and> memory m2 = replicate m 0"
    if lt: "int n < ds"
  proof -
    have v: "int n mod ds = int n" using lt by simp
    have P2: "map strip_ins P = [(NOP, 0), (ADD, int n)] @ concat (map ?f ts) @ post"
      using assms(1) by simp
    have m1'': "mstate P ds (int m) (length [(NOP, 0::int), (ADD, int n)]) (?mem1, 0, []) m1"
      using m1' by (simp add: numeral_2_eq_2)
    have "\<exists>m'. steps m1 m' \<and> mstate P ds (int m) (length [(NOP, 0::int), (ADD, int n)] + 2 * length ts)
        (?mem1[0 := 0], 0, []) m'"
      by (rule run_openings[OF P2 m1'']) (use assms(2,3) lt v in auto)
    then obtain m2 where s2: "steps m1 m2"
      and m2: "mstate P ds (int m) (length [(NOP, 0::int), (ADD, int n)] + 2 * length ts)
        (?mem1[0 := 0], 0, []) m2" by blast
    have "?mem1[0 := 0] = ?mem0" by (simp add: list_eq_iff_nth_eq nth_list_update)
    then have "pc m2 = 2 * int n + 2" "mp m2 = 0" "memory m2 = ?mem0"
      using m2 assms(2) by (simp_all add: mstate_def)
    then show ?thesis using s2 by blast
  qed
  then show ?thesis using a b by blast
qed

section \<open>Operand validation, labels and constants\<close>

text \<open>
  C6. Every instruction compiler validates operand count and operand kinds before it
  emits anything; in particular \<open>GT\<close> rejects an operand count other than 2 and operands
  that are not user registers. The code of \<open>BFI.gt\<close> has no such check: \<open>GT R1, R2, R3\<close>
  compiles, to the very text of \<open>GT R1, R2\<close>, and so does \<open>GT TR1, [BJR]\<close> on two
  internal registers, whereas \<open>ADD\<close> refuses the same operand lists.
\<close>

theorem gt_accepts_unvalidated_operands:
  "gt \<lparr>iname = ''GT'', operands = [\<lparr>val = ''R1'', otype = REFERENCE\<rparr>,
        \<lparr>val = ''R2'', otype = REFERENCE\<rparr>, \<lparr>val = ''R3'', otype = REFERENCE\<rparr>]\<rparr> ls n
     = gt \<lparr>iname = ''GT'', operands = [\<lparr>val = ''R1'', otype = REFERENCE\<rparr>,
        \<lparr>val = ''R2'', otype = REFERENCE\<rparr>]\<rparr> ls n
   \<and> (\<exists>code. gt \<lparr>iname = ''GT'', operands = [\<lparr>val = ''R1'', otype = REFERENCE\<rparr>,
        \<lparr>val = ''R2'', otype = REFERENCE\<rparr>, \<lparr>val = ''R3'', otype = REFERENCE\<rparr>]\<rparr> ls n = Inr code)
   \<and> (\<exists>code. gt \<lparr>iname = ''GT'', operands = [\<lparr>val = ''TR1'', otype = REFERENCE\<rparr>,
        \<lparr>val = ''BJR'', otype = ADDRESS\<rparr>]\<rparr> ls n = Inr code)
   \<and> add \<lparr>iname = ''ADD'', operands = [\<lparr>val = ''R1'', otype = REFERENCE\<rparr>,
        \<lparr>val = ''R2'', otype = REFERENCE\<rparr>, \<lparr>val = ''R3'', otype = REFERENCE\<rparr>]\<rparr> ls n = Inl SystemExit
   \<and> add \<lparr>iname = ''ADD'', operands = [\<lparr>val = ''TR1'', otype = REFERENCE\<rparr>,
        \<lparr>val = ''BJR'', otype = REFERENCE\<rparr>]\<rparr> ls n = Inl ValueError"
  by (simp add: gt_def add_def operand_at_def clear_cond_def gt_setup_def cp_def mv_def reg_simps)

text \<open>
  C7. A program that defines the same label twice is rejected with the duplicate-label
  error. The parser's test \<open>t.value is labels\<close> is never true, so the second definition
  of \<open>x\<close> is accepted and silently rebinds the label from instruction 0 to instruction 1.
\<close>

theorem parser_accepts_duplicate_label:
  "\<exists>ls. parser dup_label_tokens
       = Inr ([\<lparr>iname = ''OUT'', operands = [\<lparr>val = ''R1'', otype = REFERENCE\<rparr>]\<rparr>], ls)
     \<and> ls ''x'' = Some \<lparr>lname = ''x'', ip = 1\<rparr>"
  by (simp add: parser_def dup_label_tokens_def parser_step_def bindE_def value_is_labels_def
      complete_instruction_def)

text \<open>
  C8. A \<open>MOV\<close> whose constant is a \<open>0x\<close>-prefixed hexadecimal literal compiles like a
  decimal one. The lexer hands the literal on as the text \<open>0x1F\<close> and \<open>BFI.mov\<close> passes it
  to \<open>int\<close>, which reads base 10 only: \<open>MOV R1, #0x1F\<close> raises \<open>ValueError\<close>, while
  \<open>MOV R1, #3\<close> gives the clear followed by three increments.
\<close>

theorem mov_hex_constant_raises:
  "mov \<lparr>iname = ''MOV'', operands = [\<lparr>val = ''R1'', otype = REFERENCE\<rparr>,
         \<lparr>val = ''0x1F'', otype = CONSTANT\<rparr>]\<rparr> ls n = Inl ValueError
   \<and> mov \<lparr>iname = ''MOV'', operands = [\<lparr>val = ''R1'', otype = REFERENCE\<rparr>,
         \<lparr>val = ''3'', otype = CONSTANT\<rparr>]\<rparr> ls n = Inr ''>>>>>>>>[-]+++<<<<<<<<''"
  by (simp add: mov_def reg_simps py_int_def strip_def is_space_def parse_unsigned_def
      is_digit_def digit_val_def clr_def numeral_3_eq_3)

section \<open>The primitives, run on the machine\<close>

text \<open>
  In the theorems below a cell value \<open>mem ! k\<close> is read at the address \<open>k\<close> that
  \<open>address_of\<close> gives the register, the cell base is \<open>ds\<close> (the machine's \<open>data_size\<close>),
  the memory holds at least the fifteen register cells, and \<open>runs code ds mem k mem' k'\<close>
  says that the machine, loaded with the compiled text and started on memory \<open>mem\<close> with
  the pointer on cell \<open>k\<close>, ends normally with memory \<open>mem'\<close> and the pointer on \<open>k'\<close>.
\<close>

text \<open>
  C1. For user registers \<open>a\<close> and \<open>b\<close> whose cells hold values in \<open>[0, base)\<close>, the text
  \<open>gt_setup(a, b)\<close> followed by \<open>gt()\<close>, run with the pointer on \<open>a\<close>'s cell and the
  scratch cells TR1 to TR5 (cells 3 to 7) zero, ends normally with TR1 holding 1 if
  \<open>a\<close>'s value is strictly greater than \<open>b\<close>'s and 0 otherwise, and with the cells of
  \<open>a\<close> and \<open>b\<close> unchanged.
\<close>

theorem gt_correct:
  assumes "a \<in> set URegisters" "b \<in> set URegisters"
    "address_of a = Inr ka" "address_of b = Inr kb"
    "length Registers \<le> length mem"
    "mem ! 3 = 0" "mem ! 4 = 0" "mem ! 5 = 0" "mem ! 6 = 0" "mem ! 7 = 0"
    "0 \<le> mem ! ka" "mem ! ka < ds" "0 \<le> mem ! kb" "mem ! kb < ds"
  shows "\<exists>setup mem'. gt_setup a b = Inr setup \<and> runs (setup @ gt_code) ds mem ka mem' 3
           \<and> mem' ! 3 = (if mem ! ka > mem ! kb then 1 else 0)
           \<and> mem' ! ka = mem ! ka \<and> mem' ! kb = mem ! kb"
proof -
  have l: "15 \<le> length mem" using assms(5) by (simp add: Registers_def IRegisters_def URegisters_def)
  note ka = ureg_address[OF assms(1,3)] and kb = ureg_address[OF assms(2,4)]
  let ?res = "if mem ! ka > mem ! kb then 1 else (0::int)"
  have "bsem ds (int (length mem)) (gt_setup_code ka kb @ gt_code) (mem, int ka, [])
      (mem[3 := ?res], 3, [])"
    by (rule bsem_gt_full) (use assms l ka kb in auto)
  then have "runs (gt_setup_code ka kb @ gt_code) ds mem ka (mem[3 := ?res]) 3"
    using bsem_runs[of ds mem _ ka "mem[3 := ?res]" 3 "[]"] by simp
  moreover have "mem[3 := ?res] ! 3 = ?res" "mem[3 := ?res] ! ka = mem ! ka"
    "mem[3 := ?res] ! kb = mem ! kb"
    using l ka kb by auto
  ultimately show ?thesis using gt_setup_eq[OF assms(3,4)] by blast
qed

theorem gt_correct_witness:
  "''R1'' \<in> set URegisters \<and> ''R2'' \<in> set URegisters
   \<and> address_of ''R1'' = Inr 10 \<and> address_of ''R2'' = Inr 11
   \<and> (\<exists>setup mem'. gt_setup ''R1'' ''R2'' = Inr setup
         \<and> runs (setup @ gt_code) 256 [0, 0, 2, 0, 0, 0, 0, 0, 0, 0, 5, 3, 0, 0, 0] 10 mem' 3
         \<and> mem' ! 3 = 1 \<and> mem' ! 10 = 5 \<and> mem' ! 11 = 3)"
  using gt_correct[of "''R1''" "''R2''" 10 11 "[0, 0, 2, 0, 0, 0, 0, 0, 0, 0, 5, 3, 0, 0, 0]" 256]
  by (simp add: reg_simps)

text \<open>
  C4, as stated: \<open>cp(src, dst, scratch)\<close> sets \<open>dst\<close> to \<open>src\<close>'s value whatever \<open>dst\<close> held.
  The copy loop adds to \<open>dst\<close>: with R1 = 5 and R2 = 1, \<open>cp(R1, R2, R3)\<close> leaves R2 at 6.
\<close>

theorem cp_adds_to_dst:
  "cp ''R1'' ''R2'' ''R3'' = Inr ''[->+>+<<]>>[-<<+>>]<<''
   \<and> exec_text 80 ''[->+>+<<]>>[-<<+>>]<<'' 256 [0, 0, 0, 0, 0, 0, 0, 0, 0, 0, 5, 1, 0, 0, 0] 10
       = Some (Inr (END, [0, 0, 0, 0, 0, 0, 0, 0, 0, 0, 5, 6, 0, 0, 0], 10))"
  by (simp add: cp_def mv_def reg_simps numeral_2_eq_2) code_simp

text \<open>
  C4, amended: for distinct registers \<open>src\<close>, \<open>dst\<close>, \<open>scratch\<close>, a \<open>src\<close> value in
  \<open>[0, base)\<close> and \<open>dst\<close> and \<open>scratch\<close> holding 0 beforehand, \<open>cp(src, dst, scratch)\<close> run
  with the pointer on \<open>src\<close>'s cell ends normally with \<open>src\<close> unchanged, \<open>dst\<close> equal to
  \<open>src\<close>'s value, \<open>scratch\<close> at 0 and the pointer back on \<open>src\<close>'s cell.
\<close>

theorem cp_correct:
  assumes "src \<noteq> dst" "src \<noteq> tmp" "dst \<noteq> tmp"
    "address_of src = Inr s" "address_of dst = Inr d" "address_of tmp = Inr t"
    "length Registers \<le> length mem"
    "0 \<le> mem ! s" "mem ! s < ds" "mem ! d = 0" "mem ! t = 0"
  shows "\<exists>code mem'. cp src dst tmp = Inr code \<and> runs code ds mem s mem' s
           \<and> mem' ! s = mem ! s \<and> mem' ! d = mem ! s \<and> mem' ! t = 0"
proof -
  have l: "15 \<le> length mem" using assms(7) by (simp add: Registers_def IRegisters_def URegisters_def)
  note k = address_ofD(1)[OF assms(4)] address_ofD(1)[OF assms(5)] address_ofD(1)[OF assms(6)]
  have ne: "s \<noteq> d" "s \<noteq> t" "d \<noteq> t"
    using assms(1-6) address_of_inj by blast+
  have "bsem ds (int (length mem)) (cp_code s d t) (mem, int s, []) (addc ds d (mem ! s) mem, int s, [])"
    by (rule bsem_cp) (use assms l k ne in auto)
  then have "runs (cp_code s d t) ds mem s (addc ds d (mem ! s) mem) s"
    by (rule bsem_runs)
  moreover have "addc ds d (mem ! s) mem ! s = mem ! s" "addc ds d (mem ! s) mem ! d = mem ! s"
    "addc ds d (mem ! s) mem ! t = 0"
    using assms l k ne by (auto simp: nth_addc)
  ultimately show ?thesis using cp_eq[OF assms(4-6)] by blast
qed

theorem cp_correct_witness:
  "''R1'' \<noteq> ''R2'' \<and> ''R1'' \<noteq> ''TR4'' \<and> ''R2'' \<noteq> ''TR4''
   \<and> address_of ''R1'' = Inr 10 \<and> address_of ''R2'' = Inr 11 \<and> address_of ''TR4'' = Inr 6
   \<and> (\<exists>code mem'. cp ''R1'' ''R2'' ''TR4'' = Inr code
        \<and> runs code 256 [0, 0, 0, 0, 0, 0, 0, 0, 0, 0, 5, 0, 0, 0, 0] 10 mem' 10
        \<and> mem' ! 10 = 5 \<and> mem' ! 11 = 5 \<and> mem' ! 6 = 0)"
  using cp_correct[of "''R1''" "''R2''" "''TR4''" 10 11 6 "[0, 0, 0, 0, 0, 0, 0, 0, 0, 0, 5, 0, 0, 0, 0]" 256]
  by (simp add: reg_simps)

text \<open>
  C5, as stated: \<open>inot(src, dst)\<close> leaves \<open>src\<close> undisturbed. Its loop \<open>[[-] ... ]\<close> clears
  \<open>src\<close>: with R1 = 5, \<open>inot(R1, R2)\<close> ends with R1 = 0 (and R2 = 0).
\<close>

theorem inot_clears_src:
  "inot ''R1'' ''R2'' = Inr ''>+<[[-]>-<]''
   \<and> exec_text 80 ''>+<[[-]>-<]'' 256 [0, 0, 0, 0, 0, 0, 0, 0, 0, 0, 5, 0, 0, 0, 0] 10
       = Some (Inr (END, [0, 0, 0, 0, 0, 0, 0, 0, 0, 0, 0, 0, 0, 0, 0], 10))"
  by (simp add: inot_def reg_simps) code_simp

text \<open>
  C5, amended: for distinct registers \<open>src\<close> and \<open>dst\<close>, a cell base above 1, a \<open>src\<close>
  value in \<open>[0, base)\<close> and \<open>dst\<close> holding 0 beforehand, \<open>inot(src, dst)\<close> run with the
  pointer on \<open>src\<close>'s cell ends normally with \<open>dst\<close> holding 1 if \<open>src\<close> held 0 and 0
  otherwise, with \<open>src\<close> cleared to 0 and the pointer back on \<open>src\<close>'s cell.
\<close>

theorem inot_correct:
  assumes "src \<noteq> dst" "address_of src = Inr s" "address_of dst = Inr d"
    "length Registers \<le> length mem" "1 < ds"
    "0 \<le> mem ! s" "mem ! s < ds" "mem ! d = 0"
  shows "\<exists>code mem'. inot src dst = Inr code \<and> runs code ds mem s mem' s
           \<and> mem' ! d = (if mem ! s = 0 then 1 else 0) \<and> mem' ! s = 0"
proof -
  have l: "15 \<le> length mem" using assms(4) by (simp add: Registers_def IRegisters_def URegisters_def)
  note k = address_ofD(1)[OF assms(2)] address_ofD(1)[OF assms(3)]
  have ne: "s \<noteq> d" using assms(1-3) address_of_inj by blast
  let ?fin = "if mem ! s = 0 then addc ds d 1 mem else addc ds d (- 1) ((addc ds d 1 mem)[s := 0])"
  have "bsem ds (int (length mem)) (inot_code s d) (mem, int s, []) (?fin, int s, [])"
    by (rule bsem_inot) (use assms l k ne in auto)
  then have "runs (inot_code s d) ds mem s ?fin s"
    by (rule bsem_runs)
  moreover have "?fin ! d = (if mem ! s = 0 then 1 else 0)" "?fin ! s = 0"
    using assms l k ne by (auto simp: nth_addc)
  ultimately show ?thesis using inot_eq[OF assms(2,3)] by blast
qed

theorem inot_correct_witness:
  "''TR3'' \<noteq> ''TR2'' \<and> address_of ''TR3'' = Inr 5 \<and> address_of ''TR2'' = Inr 4
   \<and> (\<exists>code mem'. inot ''TR3'' ''TR2'' = Inr code
        \<and> runs code 256 [0, 0, 0, 0, 0, 0, 0, 0, 0, 0, 0, 0, 0, 0, 0] 5 mem' 5
        \<and> mem' ! 4 = 1 \<and> mem' ! 5 = 0)"
  using inot_correct[of "''TR3''" "''TR2''" 5 4 "[0, 0, 0, 0, 0, 0, 0, 0, 0, 0, 0, 0, 0, 0, 0]" 256]
  by (simp add: reg_simps)

text \<open>
  C9. For registers \<open>a\<close> and \<open>b\<close>, \<open>ptr(a, b)\<close> followed by \<open>ptr(b, a)\<close>, run from any
  cell \<open>k\<close> on any memory, ends normally with the pointer on \<open>k\<close> again and the memory
  as it was; and \<open>ptr(a, a)\<close> is the empty text.
\<close>

theorem ptr_round_trip:
  assumes "address_of a = Inr ka" "address_of b = Inr kb"
  shows "\<exists>there back. ptr a b = Inr there \<and> ptr b a = Inr back
           \<and> runs (there @ back) ds mem k mem k \<and> ptr a a = Inr []"
proof -
  have 1: "bsem ds (int (length mem)) (pm ka kb) (mem, int k, []) (mem, int k + int kb - int ka, [])"
    by (rule bsem_pm_rel)
  have 2: "bsem ds (int (length mem)) (pm kb ka) (mem, int k + int kb - int ka, [])
      (mem, int k + int kb - int ka + int ka - int kb, [])"
    by (rule bsem_pm_rel)
  have "bsem ds (int (length mem)) (pm ka kb @ pm kb ka) (mem, int k, []) (mem, int k, [])"
    using bsem_append[OF 1 2] by simp
  then have "runs (pm ka kb @ pm kb ka) ds mem k mem k" by (rule bsem_runs)
  moreover have "ptr a a = Inr []" using ptr_pm[OF assms(1) assms(1)] by (simp add: pm_def)
  ultimately show ?thesis using ptr_pm[OF assms] ptr_pm[OF assms(2,1)] by blast
qed

theorem ptr_round_trip_witness:
  "address_of ''IC'' = Inr 2 \<and> address_of ''R3'' = Inr 12
   \<and> (\<exists>there back. ptr ''IC'' ''R3'' = Inr there \<and> ptr ''R3'' ''IC'' = Inr back
        \<and> runs (there @ back) 256 [1, 2, 3] 2 [1, 2, 3] 2 \<and> ptr ''IC'' ''IC'' = Inr [])"
  using ptr_round_trip[of "''IC''" 2 "''R3''" 12 256 "[1, 2, 3]" 2]
  by (simp add: reg_simps)

section \<open>Branches, the prologue and the pointer contract of the bodies\<close>

text \<open>
  C2. For a branch whose single operand is a label (a name that is not a user register and
  is bound in the label table to the index \<open>ip lbl\<close>), compiled at index \<open>n\<close>: if
  \<open>ip lbl > n\<close> the emitted text is one step left from IC to the forward-jump counter,
  exactly \<open>ip lbl - n\<close> increments, and one step right back; otherwise it is two steps
  left to the backward-jump counter, exactly \<open>n - ip lbl + 1\<close> increments, and two steps
  right back. Run with the pointer on IC (cell 2), the text adds that amount (modulo the
  cell base) to the counter's cell (FJR is cell 1, BJR is cell 0) and ends with the
  pointer on IC.
\<close>

theorem branch_label_code:
  assumes "length (operands i) = 1" "val (operands i ! 0) = l" "l \<notin> set URegisters"
    "ls l = Some lbl" "3 \<le> length mem" "ds \<noteq> 0"
  shows "branch i ls n =
           Inr (if ip lbl > n then ''<'' @ replicate (nat (ip lbl - n)) CHR ''+'' @ ''>''
                else ''<<'' @ replicate (nat (n - ip lbl + 1)) CHR ''+'' @ ''>>'')
     \<and> (\<exists>code. branch i ls n = Inr code
          \<and> runs code ds mem 2
               (if ip lbl > n then addc ds 1 (ip lbl - n) mem else addc ds 0 (n - ip lbl + 1) mem) 2)"
proof -
  let ?fw = "''<'' @ replicate (nat (ip lbl - n)) CHR ''+'' @ ''>''"
  let ?bw = "''<<'' @ replicate (nat (n - ip lbl + 1)) CHR ''+'' @ ''>>''"
  have code: "branch i ls n = Inr (if ip lbl > n then ?fw else ?bw)"
    using assms(1-4)
    by (simp add: branch_def Let_def inc_def ptr_pm[OF scratch_address(3) scratch_address(2)]
        ptr_pm[OF scratch_address(2) scratch_address(3)] ptr_pm[OF scratch_address(3) scratch_address(1)]
        ptr_pm[OF scratch_address(1) scratch_address(3)] pm_def bindE_def numeral_2_eq_2)
  let ?ms = "int (length mem)"
  have run: "runs (if ip lbl > n then ?fw else ?bw) ds mem 2
      (if ip lbl > n then addc ds 1 (ip lbl - n) mem else addc ds 0 (n - ip lbl + 1) mem) 2"
  proof (cases "ip lbl > n")
    case True
    then obtain j where j: "nat (ip lbl - n) = Suc j" by (cases "nat (ip lbl - n)") auto
    then have ij: "int (Suc j) = ip lbl - n" using True by linarith
    have 1: "bsem ds ?ms ''<'' (mem, int 2, []) (mem, int 1, [])"
      using bsem_L1[of ds ?ms mem 2 "[]"] by simp
    have 2: "bsem ds ?ms (replicate (Suc j) CHR ''+'') (mem, int 1, []) (addc ds 1 (int (Suc j)) mem, int 1, [])"
      by (rule bsem_rep_inc) (use assms in auto)
    have 3: "bsem ds ?ms ''>'' (addc ds 1 (int (Suc j)) mem, int 1, []) (addc ds 1 (int (Suc j)) mem, int 2, [])"
      using bsem_R1[of ds ?ms _ 1 "[]"] by simp
    have "bsem ds ?ms ?fw (mem, int 2, []) (addc ds 1 (ip lbl - n) mem, int 2, [])"
      using bsem_append[OF 1 bsem_append[OF 2 3]] unfolding j ij .
    then show ?thesis using True bsem_runs by simp
  next
    case False
    then obtain j where j: "nat (n - ip lbl + 1) = Suc j" by (cases "nat (n - ip lbl + 1)") auto
    then have ij: "int (Suc j) = n - ip lbl + 1" using False by linarith
    have 1: "bsem ds ?ms ''<<'' (mem, int 2, []) (mem, int 0, [])"
      using bsem_L2[of ds ?ms mem 2 "[]"] by simp
    have 2: "bsem ds ?ms (replicate (Suc j) CHR ''+'') (mem, int 0, []) (addc ds 0 (int (Suc j)) mem, int 0, [])"
      by (rule bsem_rep_inc) (use assms in auto)
    have 3: "bsem ds ?ms ''>>'' (addc ds 0 (int (Suc j)) mem, int 0, []) (addc ds 0 (int (Suc j)) mem, int 2, [])"
      using bsem_R2[of ds ?ms _ 0 "[]"] by simp
    have "bsem ds ?ms ?bw (mem, int 2, []) (addc ds 0 (n - ip lbl + 1) mem, int 2, [])"
      using bsem_append[OF 1 bsem_append[OF 2 3]] unfolding j ij .
    then show ?thesis using False bsem_runs by simp
  qed
  show ?thesis using code run by auto
qed

theorem branch_label_code_witness:
  "branch \<lparr>iname = ''B'', operands = [\<lparr>val = ''loop'', otype = REFERENCE\<rparr>]\<rparr>
       [''loop'' \<mapsto> \<lparr>lname = ''loop'', ip = 0\<rparr>] 3 = Inr ''<<++++>>''
   \<and> (\<exists>code. branch \<lparr>iname = ''B'', operands = [\<lparr>val = ''loop'', otype = REFERENCE\<rparr>]\<rparr>
                [''loop'' \<mapsto> \<lparr>lname = ''loop'', ip = 0\<rparr>] 3 = Inr code
         \<and> runs code 256 [7, 0, 0] 2 [11, 0, 0] 2)"
  using branch_label_code[of "\<lparr>iname = ''B'', operands = [\<lparr>val = ''loop'', otype = REFERENCE\<rparr>]\<rparr>"
      "''loop''" "[''loop'' \<mapsto> \<lparr>lname = ''loop'', ip = 0\<rparr>]" "\<lparr>lname = ''loop'', ip = 0\<rparr>"
      "[7, 0, 0]" 256 3]
  by (auto simp: URegisters_def addc_def eval_nat_numeral)

text \<open>
  C3, as stated: the prologue opens exactly one loop. For two instructions it opens two:
  \<open>bjump_pre 2\<close> is \<open>++\<close>, a newline, \<open>[-[-\<close>, a newline, \<open>>\<close> and a newline.
\<close>

theorem bjump_pre_opens_many:
  "bjump_pre 2 = ''++\<newline>[-[-\<newline>>\<newline>'' \<and> count_list (bjump_pre 2) CHR ''['' = 2"
  by (simp add: bjump_pre_def inc_def numeral_2_eq_2)

text \<open>
  C3, amended: for every instruction list of length \<open>n\<close> that assembles, the output is
  the one-time prologue followed by \<open>n\<close> blocks. The prologue is \<open>n\<close> increments of the
  backward-jump counter (cell 0), then \<open>n\<close> loop openings \<open>[-\<close> (\<open>n\<close> openings and no
  closing, not a single opening) and a step right to the forward-jump counter. Block \<open>k\<close>
  is a balanced head, \<open>set_pc k\<close> followed by the forward-jump wrapper around the text of
  instruction \<open>k\<close>, and then the envelope's closing \<open><]>\<close>; the blocks hold \<open>n\<close> more
  closings than openings. So the openings are matched by the envelopes' closings, one per envelope,
  innermost first: for every \<open>k < n\<close> the closing of block \<open>k\<close> closes the loop opened by
  the opening that has \<open>n - k - 1\<close> openings before it, the text between the two is
  balanced, and it holds the later openings, the blocks before \<open>k\<close> and the head of block
  \<open>k\<close>. In particular the outermost loop, opened by the first opening, is closed by the
  last block's envelope and spans the entire block sequence: in the compiled program its
  jump-if-zero is instruction 2 and targets the last instruction, which follows the jump
  back to instruction 2. The compiled program starts with \<open>NOP\<close>, \<open>ADD n\<close> and then a
  jump-if-zero and an \<open>ADD -1\<close> for each opening. On a fresh machine the first two steps
  leave \<open>n\<close> modulo the cell base in the counter; when \<open>n\<close> is below the base, every
  opening is then entered and takes one off the counter, so that the machine reaches
  instruction \<open>2 n + 2\<close>, the one after the last opening's decrement, with the counter at
  0 again.
\<close>

theorem prologue_shape:
  assumes "assemble is ls = Inr text" "n = length is"
  shows "\<exists>hs. length hs = n
     \<and> text = bjump_pre (int n) @ concat (map (\<lambda>h. h @ bjump_post) hs)
     \<and> bjump_pre (int n) = replicate n CHR ''+'' @ ''\<newline>'' @ concat (replicate n ''[-'') @ ''\<newline>>\<newline>''
     \<and> count_list (bjump_pre (int n)) CHR ''['' = n
     \<and> count_list (bjump_pre (int n)) CHR '']'' = 0
     \<and> count_list (concat (map (\<lambda>h. h @ bjump_post) hs)) CHR '']''
          = count_list (concat (map (\<lambda>h. h @ bjump_post) hs)) CHR ''['' + n
     \<and> (\<forall>k<n. bal (hs ! k)
           \<and> (\<exists>c sp. wrap c (int k) = Inr (hs ! k @ bjump_post) \<and> set_pc (int k) = Inr sp
                 \<and> hs ! k = sp @ fjump_wrap c))
     \<and> text = replicate n CHR ''+'' @ ''\<newline>'' @ nest (rev hs)
     \<and> (\<forall>k<n. bal (CHR ''-'' # nest (rev (take k hs)) @ hs ! k @ ''<'')
           \<and> text = replicate n CHR ''+'' @ ''\<newline>'' @ concat (replicate (n - Suc k) ''[-'')
                @ (CHR ''['' # (CHR ''-'' # nest (rev (take k hs)) @ hs ! k @ ''<'') @ '']>\<newline>'')
                @ concat (map (\<lambda>h. h @ bjump_post) (drop (Suc k) hs)))
     \<and> (\<exists>P. compile text = Inr P
          \<and> (0 < n \<longrightarrow>
               (\<exists>ts rest. length ts = n \<and> ts ! 0 = length P - 1
                  \<and> map strip_ins P = (NOP, 0) # (ADD, int n)
                       # concat (map (\<lambda>t. [(JZ, int t), (ADD, - 1)]) ts) @ rest @ [(JMP, 2), (MV, 1)])
             \<and> (0 < m \<and> ds \<noteq> 0 \<longrightarrow>
                  (\<exists>m1. steps (new_machine P ds (int m)) m1 \<and> pc m1 = 2 \<and> mp m1 = 0
                     \<and> memory m1 = (replicate m 0)[0 := int n mod ds]
                     \<and> (int n < ds \<longrightarrow>
                          (\<exists>m2. steps m1 m2 \<and> pc m2 = 2 * int n + 2 \<and> mp m2 = 0
                             \<and> memory m2 = replicate m 0))))))"
proof -
  let ?f = "\<lambda>h. h @ bjump_post"
  from assms(1) obtain bf where bf: "assemble_loop 0 is ls [] = Inr bf"
    and t: "text = bjump_pre (int (length is)) @ bf"
    by (auto simp: assemble_def bindE_def split: sum.splits)
  from assemble_loop_shape[OF bf] obtain hs where l: "length hs = n"
    and b: "bf = concat (map ?f hs)"
    and a: "\<forall>k<n. bal (hs ! k)
           \<and> (\<exists>c sp. wrap c (int k) = Inr (hs ! k @ bjump_post) \<and> set_pc (int k) = Inr sp
                 \<and> hs ! k = sp @ fjump_wrap c)"
    using assms(2) by auto
  have t1: "text = bjump_pre (int n) @ concat (map ?f hs)" using t b assms(2) by simp
  have shape: "bjump_pre (int n) = replicate n CHR ''+'' @ ''\<newline>'' @ concat (replicate n ''[-'') @ ''\<newline>>\<newline>''"
    by (simp add: bjump_pre_def inc_def)
  have c1: "count_list (bjump_pre (int n)) CHR ''['' = n"
    unfolding shape by (simp add: count_concat_open count_replicate_other)
  have c2: "count_list (bjump_pre (int n)) CHR '']'' = 0"
    unfolding shape by (simp add: count_concat_close count_replicate_other)
  from assemble_loop_net[OF bf] have "net bf = - int n" using assms(2) by auto
  then have c3: "count_list (concat (map ?f hs)) CHR '']'' = count_list (concat (map ?f hs)) CHR ''['' + n"
    unfolding b by (simp add: net_def)
  have ball: "\<forall>h\<in>set hs. bal h" using a l by (auto simp: in_set_conv_nth)
  have t2: "text = replicate n CHR ''+'' @ ''\<newline>'' @ nest (rev hs)"
    unfolding t1 shape using nest_blocks[of hs] l by (simp add: bjump_post_def)
  have lt: "bal ''<''" by (simp add: bal_def parse_def)
  have k: "bal (CHR ''-'' # nest (rev (take k hs)) @ hs ! k @ ''<'')
           \<and> text = replicate n CHR ''+'' @ ''\<newline>'' @ concat (replicate (n - Suc k) ''[-'')
                @ (CHR ''['' # (CHR ''-'' # nest (rev (take k hs)) @ hs ! k @ ''<'') @ '']>\<newline>'')
                @ concat (map ?f (drop (Suc k) hs))" if "k < n" for k
  proof
    have "\<forall>h\<in>set (rev (take k hs)). bal h" using ball by (auto dest: in_set_takeD)
    from bal_nest[OF this] have "bal (nest (rev (take k hs)))" .
    moreover have "bal (hs ! k)" using a that by blast
    ultimately show "bal (CHR ''-'' # nest (rev (take k hs)) @ hs ! k @ ''<'')"
      by (intro bal_Cons bal_append lt) simp_all
    show "text = replicate n CHR ''+'' @ ''\<newline>'' @ concat (replicate (n - Suc k) ''[-'')
                @ (CHR ''['' # (CHR ''-'' # nest (rev (take k hs)) @ hs ! k @ ''<'') @ '']>\<newline>'')
                @ concat (map ?f (drop (Suc k) hs))"
      unfolding t1 shape using nest_blocks_at[of k hs] that l by (simp add: bjump_post_def)
  qed
  have "bal text"
    unfolding t2 by (intro bal_append bal_replicate bal_newline bal_nest) (use ball in simp_all)
  then obtain p where "parse text = Some p" by (auto simp: bal_def)
  from compile_parse[OF this] obtain P where P: "compile text = Inr P" by blast
  have prog: "\<exists>ts rest. length ts = n \<and> ts ! 0 = length P - 1
                  \<and> map strip_ins P = (NOP, 0) # (ADD, int n)
                       # concat (map (\<lambda>t. [(JZ, int t), (ADD, - 1)]) ts) @ rest @ [(JMP, 2), (MV, 1)]"
    if "0 < n"
  proof -
    have "hs \<noteq> []" using that l by auto
    from prologue_program[OF ball this] show ?thesis using P unfolding l t2[symmetric] by auto
  qed
  have mach: "\<exists>m1. steps (new_machine P ds (int m)) m1 \<and> pc m1 = 2 \<and> mp m1 = 0
                     \<and> memory m1 = (replicate m 0)[0 := int n mod ds]
                     \<and> (int n < ds \<longrightarrow>
                          (\<exists>m2. steps m1 m2 \<and> pc m2 = 2 * int n + 2 \<and> mp m2 = 0
                             \<and> memory m2 = replicate m 0))"
    if "0 < n" "0 < m \<and> ds \<noteq> 0"
  proof -
    from prog[OF that(1)] obtain ts rest where ts: "length ts = n"
      and e: "map strip_ins P = (NOP, 0) # (ADD, int n)
                       # concat (map (\<lambda>t. [(JZ, int t), (ADD, - 1)]) ts) @ (rest @ [(JMP, 2), (MV, 1)])"
      by auto
    from prologue_run[OF e ts] that(2) show ?thesis by blast
  qed
  show ?thesis
    by (rule exI[of _ hs], intro conjI l t1 shape c1 c2 c3 a t2 allI impI, (use k in blast)+,
        rule exI[of _ P], intro conjI P impI prog mach) auto
qed

theorem prologue_shape_witness:
  "\<exists>text. assemble [\<lparr>iname = ''MOV'', operands = [\<lparr>val = ''R1'', otype = REFERENCE\<rparr>,
                        \<lparr>val = ''3'', otype = CONSTANT\<rparr>]\<rparr>,
                    \<lparr>iname = ''OUT'', operands = [\<lparr>val = ''R1'', otype = REFERENCE\<rparr>]\<rparr>] Map.empty
       = Inr text
     \<and> (\<exists>h0 h1. text = bjump_pre 2 @ (h0 @ bjump_post) @ (h1 @ bjump_post)
          \<and> bjump_pre 2 = ''++\<newline>[-[-\<newline>>\<newline>''
          \<and> bal h0 \<and> bal h1
          \<and> (\<exists>c. wrap c 0 = Inr (h0 @ bjump_post)) \<and> (\<exists>c. wrap c 1 = Inr (h1 @ bjump_post))
          \<and> bal (''-\<newline>>\<newline>'' @ h0 @ ''<'')
          \<and> bal (''-[-\<newline>>\<newline>'' @ h0 @ ''<]>\<newline>'' @ h1 @ ''<'')
          \<and> text = ''++\<newline>[-['' @ (''-\<newline>>\<newline>'' @ h0 @ ''<'') @ '']>\<newline>'' @ h1 @ ''<]>\<newline>''
          \<and> text = ''++\<newline>['' @ (''-[-\<newline>>\<newline>'' @ h0 @ ''<]>\<newline>'' @ h1 @ ''<'') @ '']>\<newline>''
          \<and> (\<exists>P ts rest. compile text = Inr P \<and> length ts = 2 \<and> ts ! 0 = length P - 1
                \<and> map strip_ins P = [(NOP, 0), (ADD, 2), (JZ, int (ts ! 0)), (ADD, - 1),
                      (JZ, int (ts ! 1)), (ADD, - 1)] @ rest @ [(JMP, 2), (MV, 1)]
                \<and> (\<exists>m1 m2. steps (new_machine P 2048 256) m1 \<and> steps m1 m2
                      \<and> pc m1 = 2 \<and> mp m1 = 0 \<and> memory m1 = (replicate 256 0)[0 := 2]
                      \<and> pc m2 = 6 \<and> mp m2 = 0 \<and> memory m2 = replicate 256 0)))"
proof -
  let ?is = "[\<lparr>iname = ''MOV'', operands = [\<lparr>val = ''R1'', otype = REFERENCE\<rparr>,
                        \<lparr>val = ''3'', otype = CONSTANT\<rparr>]\<rparr>,
              \<lparr>iname = ''OUT'', operands = [\<lparr>val = ''R1'', otype = REFERENCE\<rparr>]\<rparr>]"
  have "\<exists>text. assemble ?is Map.empty = Inr text"
    by (simp add: assemble_def IPtr_def mov_def out_def wrap_def set_pc_def reg_simps
        py_int_def strip_def is_space_def parse_unsigned_def is_digit_def digit_val_def)
  then obtain res where t: "assemble ?is Map.empty = Inr res" by blast
  have n: "(2::nat) = length ?is" by simp
  from prologue_shape[OF t n, where m = 256 and ds = 2048] obtain hs P where l: "length hs = 2"
    and t1: "res = bjump_pre (int 2) @ concat (map (\<lambda>h. h @ bjump_post) hs)"
    and sh: "bjump_pre (int 2) = replicate 2 CHR ''+'' @ ''\<newline>'' @ concat (replicate 2 ''[-'') @ ''\<newline>>\<newline>''"
    and a: "\<forall>k<2. bal (hs ! k)
           \<and> (\<exists>c sp. wrap c (int k) = Inr (hs ! k @ bjump_post) \<and> set_pc (int k) = Inr sp
                 \<and> hs ! k = sp @ fjump_wrap c)"
    and k: "\<forall>k<2. bal (CHR ''-'' # nest (rev (take k hs)) @ hs ! k @ ''<'')
           \<and> res = replicate 2 CHR ''+'' @ ''\<newline>'' @ concat (replicate (2 - Suc k) ''[-'')
                @ (CHR ''['' # (CHR ''-'' # nest (rev (take k hs)) @ hs ! k @ ''<'') @ '']>\<newline>'')
                @ concat (map (\<lambda>h. h @ bjump_post) (drop (Suc k) hs))"
    and P: "compile res = Inr P"
    and I: "0 < (2::nat) \<longrightarrow>
               (\<exists>ts rest. length ts = 2 \<and> ts ! 0 = length P - 1
                  \<and> map strip_ins P = (NOP, 0) # (ADD, int 2)
                       # concat (map (\<lambda>t. [(JZ, int t), (ADD, - 1)]) ts) @ rest @ [(JMP, 2), (MV, 1)])
             \<and> (0 < (256::nat) \<and> (2048::int) \<noteq> 0 \<longrightarrow>
                  (\<exists>m1. steps (new_machine P 2048 (int 256)) m1 \<and> pc m1 = 2 \<and> mp m1 = 0
                     \<and> memory m1 = (replicate 256 0)[0 := int 2 mod 2048]
                     \<and> (int 2 < 2048 \<longrightarrow>
                          (\<exists>m2. steps m1 m2 \<and> pc m2 = 2 * int 2 + 2 \<and> mp m2 = 0
                             \<and> memory m2 = replicate 256 0))))"
    by (elim exE conjE) (rule that; assumption)
  from I have pr: "\<exists>ts rest. length ts = 2 \<and> ts ! 0 = length P - 1
                  \<and> map strip_ins P = (NOP, 0) # (ADD, 2)
                       # concat (map (\<lambda>t. [(JZ, int t), (ADD, - 1)]) ts) @ rest @ [(JMP, 2), (MV, 1)]"
    and ru: "\<exists>m1 m2. steps (new_machine P 2048 256) m1 \<and> steps m1 m2
                      \<and> pc m1 = 2 \<and> mp m1 = 0 \<and> memory m1 = (replicate 256 0)[0 := 2]
                      \<and> pc m2 = 6 \<and> mp m2 = 0 \<and> memory m2 = replicate 256 0"
    by auto
  from l obtain h0 h1 where hs: "hs = [h0, h1]"
    by (auto simp: length_Suc_conv numeral_2_eq_2)
  have b: "bjump_pre 2 = ''++\<newline>[-[-\<newline>>\<newline>''" using sh by (simp add: numeral_2_eq_2)
  have l01: "(\<forall>k<2. Q k) = (Q 0 \<and> Q (Suc 0))" for Q :: "nat \<Rightarrow> bool"
    by (auto simp: numeral_2_eq_2 less_Suc_eq)
  from a have a0: "bal h0" "\<exists>c. wrap c 0 = Inr (h0 @ bjump_post)"
    and a1: "bal h1" "\<exists>c. wrap c 1 = Inr (h1 @ bjump_post)"
    unfolding hs l01 by auto
  from k have k0: "bal (''-\<newline>>\<newline>'' @ h0 @ ''<'')"
      "res = ''++\<newline>[-['' @ (''-\<newline>>\<newline>'' @ h0 @ ''<'') @ '']>\<newline>'' @ h1 @ ''<]>\<newline>''"
    and k1: "bal (''-[-\<newline>>\<newline>'' @ h0 @ ''<]>\<newline>'' @ h1 @ ''<'')"
      "res = ''++\<newline>['' @ (''-[-\<newline>>\<newline>'' @ h0 @ ''<]>\<newline>'' @ h1 @ ''<'') @ '']>\<newline>''"
    unfolding hs l01 by (auto simp: numeral_2_eq_2 bjump_post_def)
  from pr obtain ts rest where ts: "length ts = 2" "ts ! 0 = length P - 1"
    and e: "map strip_ins P = (NOP, 0) # (ADD, 2)
                       # concat (map (\<lambda>t. [(JZ, int t), (ADD, - 1)]) ts) @ rest @ [(JMP, 2), (MV, 1)]"
    by (elim exE conjE) (rule that; assumption)
  from ts(1) obtain x y where xy: "ts = [x, y]" by (auto simp: length_Suc_conv numeral_2_eq_2)
  have e': "map strip_ins P = [(NOP, 0), (ADD, 2), (JZ, int (ts ! 0)), (ADD, - 1),
                      (JZ, int (ts ! 1)), (ADD, - 1)] @ rest @ [(JMP, 2), (MV, 1)]"
    using e unfolding xy by simp
  have t1': "res = bjump_pre 2 @ (h0 @ bjump_post) @ (h1 @ bjump_post)"
    using t1 unfolding hs by simp
  have prog: "\<exists>P ts rest. compile res = Inr P \<and> length ts = 2 \<and> ts ! 0 = length P - 1
                \<and> map strip_ins P = [(NOP, 0), (ADD, 2), (JZ, int (ts ! 0)), (ADD, - 1),
                      (JZ, int (ts ! 1)), (ADD, - 1)] @ rest @ [(JMP, 2), (MV, 1)]
                \<and> (\<exists>m1 m2. steps (new_machine P 2048 256) m1 \<and> steps m1 m2
                      \<and> pc m1 = 2 \<and> mp m1 = 0 \<and> memory m1 = (replicate 256 0)[0 := 2]
                      \<and> pc m2 = 6 \<and> mp m2 = 0 \<and> memory m2 = replicate 256 0)"
    by (rule exI[of _ P], rule exI[of _ ts], rule exI[of _ rest]) (intro conjI P ts e' ru)
  show ?thesis
    by (rule exI[of _ res], rule conjI[OF t], rule exI[of _ h0], rule exI[of _ h1])
       (intro conjI t1' b a0 a1 k0 k1 prog)
qed

text \<open>
  C10. For every instruction compiler of the dispatch table (\<open>ADD\<close>, \<open>MOV\<close>, \<open>OUT\<close>, \<open>GT\<close>,
  \<open>B\<close>) and every instruction it compiles, the emitted body, run with the pointer on the
  condition-intake cell IC (cell 2) on a memory that holds the register cells, with every
  cell in \<open>[0, base)\<close> and the scratch cells TR1 to TR5 (cells 3 to 7) zero, ends normally
  with the pointer on IC again.
\<close>

theorem body_pointer_contract:
  assumes "IPtr nm = Some f" "f i ls n = Inr body"
    "length Registers \<le> length mem" "\<forall>x\<in>set mem. 0 \<le> x \<and> x < ds"
    "mem ! 3 = 0" "mem ! 4 = 0" "mem ! 5 = 0" "mem ! 6 = 0" "mem ! 7 = 0"
  shows "\<exists>mem'. runs body ds mem 2 mem' 2"
proof -
  let ?n = "length mem"
  have l: "15 \<le> ?n" using assms(3) by (simp add: Registers_def IRegisters_def URegisters_def)
  have w: "wfm ds ?n mem" using assms(4) by (simp add: wfm_def)
  have ds: "0 < ds" using wfm_nth[OF w, of 0] l by linarith
  from assms(1) consider "f = add" | "f = mov" | "f = out" | "f = gt" | "f = branch"
    by (auto simp: IPtr_def split: if_splits)
  then show ?thesis
  proof cases
    case 1
    from add_body[OF assms(2)[unfolded 1]] show ?thesis
    proof (elim disjE exE conjE)
      fix k j assume "8 \<le> k" "k < 15" "body = pm 2 k @ replicate j CHR ''+'' @ pm k 2"
      then show ?thesis using wk_run[OF contract_simple(1)[OF ds l, of k j] w] l by auto
    next
      fix s d assume "8 \<le> s" "s < 15" "8 \<le> d" "d < 15"
        "body = pm 2 s @ mv_code s 3 @ pm s 3 @ (CHR ''['' # fan_body 3 s d @ '']'') @ pm 3 2"
      then show ?thesis using wk_run[OF contract_add_ref[OF ds l, of s d] w] by auto
    qed
  next
    case 2
    from mov_body[OF assms(2)[unfolded 2]] obtain k j where
      "8 \<le> k" "k < 15" "body = pm 2 k @ ''[-]'' @ replicate j CHR ''+'' @ pm k 2" by blast
    then show ?thesis using wk_run[OF contract_simple(3)[OF ds l, of k j] w] l by auto
  next
    case 3
    from out_body[OF assms(2)[unfolded 3]] obtain k where
      "8 \<le> k" "k < 15" "body = pm 2 k @ ''.'' @ pm k 2" by blast
    then show ?thesis using wk_run[OF contract_simple(2)[OF ds l, of k 0] w] l by auto
  next
    case 4
    from gt_body[OF assms(2)[unfolded 4]] obtain a b where
      "a < 15" "b < 15" "body = pm 2 8 @ ''[-]'' @ pm 8 2 @ pm 2 a @ ''\<newline>'' @ gt_setup_code a b
          @ ''\<newline>'' @ gt_code @ gt_tail" by blast
    then show ?thesis using contract_gt[OF w l _ _ assms(5-9), of a b] by auto
  next
    case 5
    from branch_body[OF assms(2)[unfolded 5]] show ?thesis
    proof (elim disjE exE conjE)
      fix j assume "body = pm 2 1 @ replicate j CHR ''+'' @ pm 1 2"
      then show ?thesis using wk_run[OF contract_simple(1)[OF ds l, of 1 j] w] l by auto
    next
      fix j assume "body = pm 2 0 @ replicate j CHR ''+'' @ pm 0 2"
      moreover have "0 < ?n" using l by (cases mem) auto
      ultimately show ?thesis using wk_run[OF contract_simple(1)[OF ds l, of 0 j] w] by auto
    next
      fix k assume "8 \<le> k" "k < 15" "body = branch_reg_code k"
      then show ?thesis using contract_branch_reg[OF w l _ _ assms(5-9), of k] by auto
    qed
  qed
qed

theorem body_pointer_contract_witness:
  "IPtr ''GT'' = Some gt
   \<and> (\<exists>body. gt \<lparr>iname = ''GT'', operands = [\<lparr>val = ''R1'', otype = REFERENCE\<rparr>,
                 \<lparr>val = ''R2'', otype = REFERENCE\<rparr>]\<rparr> Map.empty 2 = Inr body
        \<and> (\<exists>mem'. runs body 256 [0, 0, 1, 0, 0, 0, 0, 0, 0, 2, 5, 3, 0, 0, 0] 2 mem' 2))"
proof -
  let ?i = "\<lparr>iname = ''GT'', operands = [\<lparr>val = ''R1'', otype = REFERENCE\<rparr>,
                 \<lparr>val = ''R2'', otype = REFERENCE\<rparr>]\<rparr>"
  have I: "IPtr ''GT'' = Some gt" by (simp add: IPtr_def)
  have "\<exists>body. gt ?i Map.empty 2 = Inr body"
    by (simp add: gt_def operand_at_def clear_cond_def gt_setup_def cp_def mv_def reg_simps)
  then obtain body where b: "gt ?i Map.empty 2 = Inr body" by blast
  from body_pointer_contract[OF I b, of "[0, 0, 1, 0, 0, 0, 0, 0, 0, 2, 5, 3, 0, 0, 0]" 256]
  show ?thesis using I b by (simp add: Registers_def IRegisters_def URegisters_def)
qed

end
